theory Spec2Isabelle
  imports Main "HOL-Library.Word"
begin

unbundle bit_operations_syntax

section \<open>Data model\<close>

text \<open>
  Go's \<open>byte\<close>, \<open>int64\<close> and \<open>uint64\<close> are machine words. Go's \<open>int\<close> is taken
  to be 64 bits wide: the constant \<open>65851 + 0xffffffff\<close> that \<open>EncodeBytes\<close>
  compares a length with only fits an \<open>int\<close> of that width. Lengths and the loop
  counter \<open>bits\<close> never leave the range of such an \<open>int\<close>, so they are \<open>int\<close> here.
\<close>

type_synonym byte = "8 word"
type_synonym int64 = "64 word"
type_synonym uint64 = "64 word"

text \<open>The three package-level error values.\<close>

datatype error = NoEncoding | EmptyBufferError | CorruptedBufferError

text \<open>
  A call either returns or panics. An \<open>error\<close> that a function returns is part of
  what it returns; a panic is not.
\<close>

datatype 'a exec = Return 'a | Panic string

fun exec_bind :: "'a exec \<Rightarrow> ('a \<Rightarrow> 'b exec) \<Rightarrow> 'b exec" where
  "exec_bind (Return x) f = f x"
| "exec_bind (Panic s) f = Panic s"

text \<open>
  The dynamic values that \<open>EncodeNils\<close> switches on and that \<open>Decode\<close> returns, as
  \<open>interface{}\<close> holds them. \<open>VOther\<close> stands for a value of any other type.
\<close>

datatype val =
    VNil
  | VBool bool
  | VInt int64
  | VInt64 int64
  | VUint64 uint64
  | VUint64s "uint64 list"
  | VBytes "byte list"
  | VString "byte list"
  | VOther

subsection \<open>Indexing and slicing\<close>

text \<open>
  \<open>s[i]\<close>, \<open>s[lo:hi]\<close> and \<open>s[lo:]\<close> panic out of range. Go bounds \<open>hi\<close> by the
  capacity; the length used here is never larger, so the model panics wherever Go does.
\<close>

definition go_index :: "'a list \<Rightarrow> nat \<Rightarrow> 'a exec" where
  "go_index s i = (if i < length s then Return (s ! i) else Panic ''index out of range'')"

definition go_slice :: "'a list \<Rightarrow> nat \<Rightarrow> nat \<Rightarrow> 'a list exec" where
  "go_slice s lo hi =
     (if lo \<le> hi \<and> hi \<le> length s then Return (take (hi - lo) (drop lo s))
      else Panic ''slice bounds out of range'')"

definition go_slice_from :: "'a list \<Rightarrow> nat \<Rightarrow> 'a list exec" where
  "go_slice_from s lo =
     (if lo \<le> length s then Return (drop lo s) else Panic ''slice bounds out of range'')"

text \<open>Go's integer division truncates towards zero.\<close>

definition go_div :: "int \<Rightarrow> int \<Rightarrow> int" where
  "go_div a b = sgn a * sgn b * (\<bar>a\<bar> div \<bar>b\<bar>)"

subsection \<open>Constants\<close>

abbreviation BB_POSITIVE :: byte where "BB_POSITIVE \<equiv> 0x80"
abbreviation BB_NEGATIVE :: byte where "BB_NEGATIVE \<equiv> 0x00"
abbreviation BB_TYPE_MASK :: byte where "BB_TYPE_MASK \<equiv> 0xF0"

abbreviation BB_NIL_FIRST :: byte where "BB_NIL_FIRST \<equiv> 0x00"
abbreviation BB_NIL_LAST :: byte where "BB_NIL_LAST \<equiv> 0xFF"

abbreviation BB_BOOLEAN :: byte where "BB_BOOLEAN \<equiv> 0x0E"
abbreviation BB_BOOLEAN_FALSE :: byte where "BB_BOOLEAN_FALSE \<equiv> BB_BOOLEAN OR 0"
abbreviation BB_BOOLEAN_TRUE :: byte where "BB_BOOLEAN_TRUE \<equiv> BB_BOOLEAN OR 1"

abbreviation BB_BYTES :: byte where "BB_BYTES \<equiv> 0x10"
abbreviation BB_BYTES_LEN_1 :: byte where "BB_BYTES_LEN_1 \<equiv> 0x4D"
abbreviation BB_BYTES_LEN_2 :: byte where "BB_BYTES_LEN_2 \<equiv> 0x4E"
abbreviation BB_BYTES_LEN_4 :: byte where "BB_BYTES_LEN_4 \<equiv> 0x4E"

abbreviation BB_INT :: byte where "BB_INT \<equiv> 0x60"
abbreviation BB_INT_POSITIVE_VALUE :: byte where
  "BB_INT_POSITIVE_VALUE \<equiv> BB_INT OR BB_POSITIVE OR 0x08"
abbreviation BB_INT_NEGATIVE_VALUE :: byte where
  "BB_INT_NEGATIVE_VALUE \<equiv> BB_INT OR BB_NEGATIVE"
abbreviation BB_SMALL_POSITIVE :: byte where "BB_SMALL_POSITIVE \<equiv> BB_INT OR BB_POSITIVE"
abbreviation BB_SMALL_NEGATIVE :: byte where
  "BB_SMALL_NEGATIVE \<equiv> BB_INT OR BB_NEGATIVE OR 0x08"
abbreviation BB_INT_MASK :: byte where "BB_INT_MASK \<equiv> BB_INT_POSITIVE_VALUE"

abbreviation SMALL_NEGATIVE_INT :: int where "SMALL_NEGATIVE_INT \<equiv> - 8"
abbreviation SMALL_POSITIVE_INT :: int where "SMALL_POSITIVE_INT \<equiv> 7"
abbreviation SMALL_INT_MASK :: int where "SMALL_INT_MASK \<equiv> 0x07"
abbreviation SMALL_NEG_MASK :: int where "SMALL_NEG_MASK \<equiv> NOT SMALL_INT_MASK"

abbreviation MIN_SMALL_POSITIVE :: byte where
  "MIN_SMALL_POSITIVE \<equiv> BB_SMALL_POSITIVE OR word_of_int (0 AND SMALL_INT_MASK)"
abbreviation MAX_SMALL_POSITIVE :: byte where
  "MAX_SMALL_POSITIVE \<equiv> BB_SMALL_POSITIVE OR word_of_int (SMALL_POSITIVE_INT AND SMALL_INT_MASK)"
abbreviation MIN_SMALL_NEGATIVE :: byte where
  "MIN_SMALL_NEGATIVE \<equiv> BB_SMALL_NEGATIVE OR word_of_int (SMALL_NEGATIVE_INT AND SMALL_INT_MASK)"
abbreviation MAX_SMALL_NEGATIVE :: byte where
  "MAX_SMALL_NEGATIVE \<equiv> BB_SMALL_NEGATIVE OR word_of_int (- 1 AND SMALL_INT_MASK)"

abbreviation BB_UINT :: byte where "BB_UINT \<equiv> 0x80"
abbreviation BB_UINT_VAR :: byte where "BB_UINT_VAR \<equiv> 0x90"
abbreviation BB_UINT_MASK :: byte where "BB_UINT_MASK \<equiv> 0xE0"
abbreviation SMALL_UINT :: int where "SMALL_UINT \<equiv> 16"
abbreviation SMALL_UINT_MASK :: byte where "SMALL_UINT_MASK \<equiv> 0x1F"
abbreviation MIN_SMALL_UINT :: byte where "MIN_SMALL_UINT \<equiv> BB_UINT"
abbreviation MAX_SMALL_UINT :: byte where "MAX_SMALL_UINT \<equiv> BB_UINT + word_of_int SMALL_UINT"

abbreviation NilFirst :: "byte list" where "NilFirst \<equiv> [BB_NIL_FIRST]"
abbreviation NilLast :: "byte list" where "NilLast \<equiv> [BB_NIL_LAST]"
abbreviation True_bytes :: "byte list" where "True_bytes \<equiv> [BB_BOOLEAN_TRUE]"
abbreviation False_bytes :: "byte list" where "False_bytes \<equiv> [BB_BOOLEAN_FALSE]"
abbreviation Bytes1 :: "byte list" where "Bytes1 \<equiv> [BB_BYTES_LEN_1]"
abbreviation Bytes2 :: "byte list" where "Bytes2 \<equiv> [BB_BYTES_LEN_2]"
abbreviation Bytes4 :: "byte list" where "Bytes4 \<equiv> [BB_BYTES_LEN_4]"

section \<open>Encoders\<close>

definition EncodeBool :: "bool \<Rightarrow> byte list" where
  "EncodeBool b = (if b then True_bytes else False_bytes)"

definition EncodeNil :: "bool \<Rightarrow> byte list" where
  "EncodeNil first = (if first then NilFirst else NilLast)"

subsection \<open>Integer compaction\<close>

text \<open>
  The first loop of the negative branch of \<open>compactInt64\<close>: it stops at the highest
  byte that is not \<open>0xff\<close>, or at \<open>bits = 0\<close>.
\<close>

function compactInt64_neg_scan :: "uint64 \<Rightarrow> int \<Rightarrow> int" where
  "compactInt64_neg_scan v bits =
     (if bits > 0 then
        (if (drop_bit (nat bits) v) AND 0xff \<noteq> 0xff then bits
         else compactInt64_neg_scan v (bits - 8))
      else bits)"
  by pat_completeness auto
termination
  by (relation "measure (\<lambda>(v, bits). nat bits)") auto

declare compactInt64_neg_scan.simps [simp del]

text \<open>
  The first loop of the positive branch of \<open>compactInt64\<close>, which is also the first
  loop of \<open>compactUint64\<close>: it stops at the highest position \<open>bits\<close> where
  \<open>v >> bits\<close> is not zero, or at \<open>bits = 0\<close>.
\<close>

function compact_pos_scan :: "uint64 \<Rightarrow> int \<Rightarrow> int" where
  "compact_pos_scan v bits =
     (if bits > 0 then
        (if drop_bit (nat bits) v \<noteq> 0 then bits
         else compact_pos_scan v (bits - 8))
      else bits)"
  by pat_completeness auto
termination
  by (relation "measure (\<lambda>(v, bits). nat bits)") auto

declare compact_pos_scan.simps [simp del]

text \<open>
  The last loop of \<open>compactInt64\<close> and of \<open>compactUint64\<close>: it appends the bytes of
  \<open>v\<close> from position \<open>bits\<close> down to position 0.
\<close>

function compact_payload :: "uint64 \<Rightarrow> int \<Rightarrow> byte list \<Rightarrow> byte list" where
  "compact_payload v bits bb =
     (if bits \<ge> 0 then compact_payload v (bits - 8) (bb @ [ucast (drop_bit (nat bits) v)])
      else bb)"
  by pat_completeness auto
termination
  by (relation "measure (\<lambda>(v, bits, bb). nat (bits + 1))") auto

declare compact_payload.simps [simp del]

definition compactInt64 :: "uint64 \<Rightarrow> byte \<Rightarrow> byte list" where
  "compactInt64 v typ =
     (if typ AND BB_TYPE_MASK = BB_INT_NEGATIVE_VALUE then
        (let bits = compactInt64_neg_scan v (64 - 8);
             bb = [] @ [typ + (7 - word_of_int (go_div bits 8))]
         in compact_payload v bits bb)
      else
        (let bits = compact_pos_scan v (64 - 8);
             bb = [] @ [typ + word_of_int (go_div bits 8)]
         in compact_payload v bits bb))"

definition compactUint64 :: "uint64 \<Rightarrow> byte list" where
  "compactUint64 u =
     (let bits = compact_pos_scan u (64 - 8);
          bb = [] @ [BB_UINT_VAR + word_of_int (go_div bits 8) + 1]
      in compact_payload u bits bb)"

definition EncodeInt64 :: "int64 \<Rightarrow> byte list" where
  "EncodeInt64 i =
     (if sint i < SMALL_NEGATIVE_INT then compactInt64 i BB_INT_NEGATIVE_VALUE
      else if sint i > SMALL_POSITIVE_INT then compactInt64 i BB_INT_POSITIVE_VALUE
      else if sint i \<ge> 0 then [BB_SMALL_POSITIVE + ucast (i AND word_of_int SMALL_INT_MASK)]
      else [BB_SMALL_NEGATIVE + ucast (i AND word_of_int SMALL_INT_MASK)])"

definition EncodeInt :: "int64 \<Rightarrow> byte list" where
  "EncodeInt i = EncodeInt64 i"

definition EncodeUint64 :: "uint64 \<Rightarrow> byte list" where
  "EncodeUint64 u =
     (if uint u \<le> SMALL_UINT then [BB_UINT + ucast u]
      else compactUint64 u)"

definition EncodeUint :: "uint64 \<Rightarrow> byte list" where
  "EncodeUint u = EncodeUint64 u"

subsection \<open>Byte strings\<close>

definition EncodeBytes :: "byte list \<Rightarrow> byte list exec" where
  "EncodeBytes bb =
     (let l = int (length bb) in
      if l \<le> 60 then
        Return ([BB_BYTES OR word_of_int l] @ bb)
      else if l \<le> 61 + 0xff then
        (let l = l - 61 in
         Return ((Bytes1 @ [word_of_int l]) @ bb))
      else if l \<le> 317 + 0xffff then
        (let l = l - 317 in
         Return ((Bytes2 @ [word_of_int (drop_bit 8 l), word_of_int (drop_bit 0 l)]) @ bb))
      else if l \<le> 65851 + 0xffffffff then
        (let l = l - 65851 in
         Return ((Bytes4 @ [word_of_int (drop_bit 24 l), word_of_int (drop_bit 16 l),
                            word_of_int (drop_bit 8 l), word_of_int (drop_bit 0 l)]) @ bb))
      else Panic ''slice too long'')"

subsection \<open>Tuples\<close>

text \<open>The loop of \<open>EncodeNils\<close> over a \<open>[]uint64\<close> value.\<close>

fun EncodeNils_uints :: "uint64 list \<Rightarrow> byte list \<Rightarrow> byte list" where
  "EncodeNils_uints [] b = b"
| "EncodeNils_uints (u # t) b = EncodeNils_uints t (b @ EncodeUint64 u)"

text \<open>
  The loop of \<open>EncodeNils\<close> over the values, with the buffer built so far. A value of
  an unsupported type ends it with \<open>NoEncoding\<close>; a panic of \<open>EncodeBytes\<close> ends it too.
\<close>

fun EncodeNils_loop :: "bool \<Rightarrow> val list \<Rightarrow> byte list \<Rightarrow> (error + byte list) exec" where
  "EncodeNils_loop nilFirst [] b = Return (Inr b)"
| "EncodeNils_loop nilFirst (v # values) b =
     (case v of
        VNil \<Rightarrow> EncodeNils_loop nilFirst values (b @ EncodeNil nilFirst)
      | VBool t \<Rightarrow> EncodeNils_loop nilFirst values (b @ EncodeBool t)
      | VInt t \<Rightarrow> EncodeNils_loop nilFirst values (b @ EncodeInt t)
      | VInt64 t \<Rightarrow> EncodeNils_loop nilFirst values (b @ EncodeInt64 t)
      | VUint64 t \<Rightarrow> EncodeNils_loop nilFirst values (b @ EncodeUint64 t)
      | VUint64s t \<Rightarrow> EncodeNils_loop nilFirst values (EncodeNils_uints t b)
      | VBytes t \<Rightarrow>
          exec_bind (EncodeBytes t) (\<lambda>e. EncodeNils_loop nilFirst values (b @ e))
      | VString t \<Rightarrow>
          exec_bind (EncodeBytes t) (\<lambda>e. EncodeNils_loop nilFirst values (b @ e))
      | VOther \<Rightarrow> Return (Inl NoEncoding))"

definition EncodeNils :: "bool \<Rightarrow> val list \<Rightarrow> (error + byte list) exec" where
  "EncodeNils nilFirst values = EncodeNils_loop nilFirst values []"

definition Encode :: "val list \<Rightarrow> (error + byte list) exec" where
  "Encode values = EncodeNils True values"

section \<open>Decoders\<close>

definition uncompactInt64 :: "byte list \<Rightarrow> bool \<Rightarrow> int64" where
  "uncompactInt64 bb positive =
     foldl (\<lambda>l b. push_bit 8 l OR ucast b) (if \<not> positive then - 1 else 0) bb"

definition uncompactUint64 :: "byte list \<Rightarrow> uint64" where
  "uncompactUint64 bb = foldl (\<lambda>l b. push_bit 8 l OR ucast b) 0 bb"

text \<open>
  The bodies of the cases of \<open>Decode\<close>'s \<open>switch\<close> that read a payload, each
  with the tag \<open>k\<close> and \<open>next = b[1:]\<close> as the case finds them.
\<close>

definition Decode_bytes_direct :: "byte \<Rightarrow> byte list \<Rightarrow> (error + val \<times> byte list) exec" where
  "Decode_bytes_direct k next =
     (let k = k - BB_BYTES in
      if int (length next) < uint k then Return (Inl CorruptedBufferError)
      else exec_bind (go_slice next 0 (unat k)) (\<lambda>v.
           exec_bind (go_slice_from next (unat k)) (\<lambda>rest.
           Return (Inr (VBytes v, rest)))))"

definition Decode_bytes_len_1 :: "byte list \<Rightarrow> (error + val \<times> byte list) exec" where
  "Decode_bytes_len_1 next =
     (if length next < 1 then Return (Inl CorruptedBufferError)
      else exec_bind (go_index next 0) (\<lambda>k.
           exec_bind (go_slice_from next 1) (\<lambda>next.
           let n = uint k + 62 in
           if int (length next) < n then Return (Inl CorruptedBufferError)
           else exec_bind (go_slice next 0 (nat n)) (\<lambda>v.
                exec_bind (go_slice_from next (nat n)) (\<lambda>rest.
                Return (Inr (VBytes v, rest)))))))"

definition Decode_bytes_len_2 :: "byte list \<Rightarrow> (error + val \<times> byte list) exec" where
  "Decode_bytes_len_2 next =
     (if length next < 2 then Return (Inl CorruptedBufferError)
      else exec_bind (go_index next 0) (\<lambda>k1.
           exec_bind (go_index next 1) (\<lambda>k2.
           exec_bind (go_slice_from next 2) (\<lambda>next.
           let n = uint k1 * 256 + uint k2 + 318 in
           if int (length next) < n then Return (Inl CorruptedBufferError)
           else exec_bind (go_slice next 0 (nat n)) (\<lambda>v.
                exec_bind (go_slice_from next (nat n)) (\<lambda>rest.
                Return (Inr (VBytes v, rest))))))))"

definition Decode_int_positive :: "byte \<Rightarrow> byte list \<Rightarrow> (error + val \<times> byte list) exec" where
  "Decode_int_positive k next =
     (let n = uint (k AND 7) + 1 in
      if int (length next) < n then Return (Inl CorruptedBufferError)
      else exec_bind (go_slice next 0 (nat n)) (\<lambda>p.
           exec_bind (go_slice_from next (nat n)) (\<lambda>rest.
           Return (Inr (VInt64 (uncompactInt64 p True), rest)))))"

definition Decode_int_negative :: "byte \<Rightarrow> byte list \<Rightarrow> (error + val \<times> byte list) exec" where
  "Decode_int_negative k next =
     (let n = 8 - uint (k AND 7) in
      if int (length next) < n then Return (Inl CorruptedBufferError)
      else exec_bind (go_slice next 0 (nat n)) (\<lambda>p.
           exec_bind (go_slice_from next (nat n)) (\<lambda>rest.
           Return (Inr (VInt64 (uncompactInt64 p False), rest)))))"

definition Decode_uint_var :: "byte \<Rightarrow> byte list \<Rightarrow> (error + val \<times> byte list) exec" where
  "Decode_uint_var k next =
     (let n = uint (k AND 15) in
      if n = 0 \<or> n > 8 \<or> int (length next) < n then Return (Inl CorruptedBufferError)
      else exec_bind (go_slice next 0 (nat n)) (\<lambda>p.
           exec_bind (go_slice_from next (nat n)) (\<lambda>rest.
           Return (Inr (VUint64 (uncompactUint64 p), rest)))))"

text \<open>
  \<open>Decode\<close> after the test for an empty buffer, with \<open>k = b[0]\<close> and \<open>next = b[1:]\<close>:
  the \<open>switch\<close>, its cases in the order of the source.
\<close>

definition Decode_switch :: "byte \<Rightarrow> byte list \<Rightarrow> (error + val \<times> byte list) exec" where
  "Decode_switch k next =
     (if k = BB_NIL_FIRST \<or> k = BB_NIL_LAST then
        Return (Inr (VNil, next))
      else if k = BB_BOOLEAN_FALSE then
        Return (Inr (VBool False, next))
      else if k = BB_BOOLEAN_TRUE then
        Return (Inr (VBool True, next))
      else if k \<ge> BB_BYTES \<and> k < BB_BYTES_LEN_1 then
        Decode_bytes_direct k next
      else if k = BB_BYTES_LEN_1 then
        Decode_bytes_len_1 next
      else if k = BB_BYTES_LEN_2 then
        Decode_bytes_len_2 next
      else if k \<ge> MIN_SMALL_POSITIVE \<and> k \<le> MAX_SMALL_POSITIVE then
        Return (Inr (VInt64 (ucast (k AND word_of_int SMALL_INT_MASK)), next))
      else if k \<ge> MIN_SMALL_NEGATIVE \<and> k \<le> MAX_SMALL_NEGATIVE then
        Return (Inr (VInt64 (ucast (k AND word_of_int SMALL_INT_MASK) OR word_of_int SMALL_NEG_MASK),
                     next))
      else if k AND BB_INT_MASK = BB_INT_POSITIVE_VALUE then
        Decode_int_positive k next
      else if k AND BB_INT_MASK = BB_INT_NEGATIVE_VALUE then
        Decode_int_negative k next
      else if k \<ge> MIN_SMALL_UINT \<and> k \<le> MAX_SMALL_UINT then
        Return (Inr (VUint64 (ucast (k AND SMALL_UINT_MASK)), next))
      else if k AND BB_UINT_MASK = BB_UINT then
        Decode_uint_var k next
      else Return (Inl CorruptedBufferError))"

definition Decode :: "byte list \<Rightarrow> (error + val \<times> byte list) exec" where
  "Decode b =
     (if length b = 0 then Return (Inl EmptyBufferError)
      else exec_bind (go_index b 0) (\<lambda>k.
           exec_bind (go_slice_from b 1) (\<lambda>next.
           Decode_switch k next)))"

text \<open>
  Every successful \<open>Decode\<close> consumes the tag byte at least. This is what makes the
  loop of \<open>DecodeAll\<close> end.
\<close>

section \<open>Comparing buffers\<close>

text \<open>
  \<open>bytes.Compare\<close> of Go's standard library, which the tests sort buffers with:
  lexicographic on unsigned bytes, a proper prefix first.
\<close>

fun bytes_Compare :: "byte list \<Rightarrow> byte list \<Rightarrow> int" where
  "bytes_Compare [] [] = 0"
| "bytes_Compare [] (y # ys) = - 1"
| "bytes_Compare (x # xs) [] = 1"
| "bytes_Compare (x # xs) (y # ys) =
     (if x < y then - 1 else if y < x then 1 else bytes_Compare xs ys)"

section \<open>Auxiliary notions\<close>

text \<open>The \<open>n\<close> low bytes of \<open>v\<close>, the most significant first.\<close>

definition be_bytes :: "uint64 \<Rightarrow> nat \<Rightarrow> byte list" where
  "be_bytes v n = map (\<lambda>j. ucast (drop_bit (8 * j) v)) (rev [0..<n])"

text \<open>
  Two buffers that, after a common prefix, go on with a smaller byte in the first and a
  larger byte in the second. Whatever follows, the first compares below the second.
\<close>

fun differs_less :: "byte list \<Rightarrow> byte list \<Rightarrow> bool" where
  "differs_less (x # xs) (y # ys) = (x < y \<or> (x = y \<and> differs_less xs ys))"
| "differs_less _ _ = False"

text \<open>The natural order of two scalar values of one category, byte strings apart.\<close>

fun scalar_less :: "val \<Rightarrow> val \<Rightarrow> bool" where
  "scalar_less (VBool a) (VBool b) = (\<not> a \<and> b)"
| "scalar_less (VInt a) (VInt b) = (sint a < sint b)"
| "scalar_less (VInt64 a) (VInt64 b) = (sint a < sint b)"
| "scalar_less (VUint64 a) (VUint64 b) = (uint a < uint b)"
| "scalar_less _ _ = False"

text \<open>A result of \<open>EncodeNils\<close> with \<open>b\<close> put before the buffer, if there is one.\<close>

fun prepend :: "byte list \<Rightarrow> (error + byte list) exec \<Rightarrow> (error + byte list) exec" where
  "prepend b (Return (Inr e)) = Return (Inr (b @ e))"
| "prepend b (Return (Inl err)) = Return (Inl err)"
| "prepend b (Panic s) = Panic s"

text \<open>What \<open>EncodeNils\<close> returns for a single value.\<close>

definition EncodeNils_one :: "bool \<Rightarrow> val \<Rightarrow> (error + byte list) exec" where
  "EncodeNils_one nf v = EncodeNils_loop nf [v] []"

section \<open>The decoder, case by case\<close>

text \<open>
  Each case of the \<open>switch\<close> checks the length before it slices, so no slice
  expression panics and each body has a closed form.
\<close>

lemma len_lt_uint: "(int n < uint (w::'a::len word)) = (n < unat w)"
proof -
  have "uint w = int (unat w)" by simp
  then show ?thesis by (simp only: of_nat_less_iff)
qed

lemma Decode_bytes_direct_eq:
  "Decode_bytes_direct k nxt =
     (if length nxt < unat (k - 0x10) then Return (Inl CorruptedBufferError)
      else Return (Inr (VBytes (take (unat (k - 0x10)) nxt), drop (unat (k - 0x10)) nxt)))"
  by (simp add: Decode_bytes_direct_def go_slice_def go_slice_from_def Let_def len_lt_uint)

lemma Decode_bytes_len_1_eq:
  "Decode_bytes_len_1 nxt =
     (case nxt of [] \<Rightarrow> Return (Inl CorruptedBufferError)
      | k # r \<Rightarrow>
          if length r < unat k + 62 then Return (Inl CorruptedBufferError)
          else Return (Inr (VBytes (take (unat k + 62) r), drop (unat k + 62) r)))"
proof (cases nxt)
  case Nil
  then show ?thesis by (simp add: Decode_bytes_len_1_def)
next
  case (Cons k r)
  have n: "uint k + 62 = int (unat k + 62)"
    by simp
  from Cons show ?thesis
    unfolding Decode_bytes_len_1_def Let_def
    by (simp add: go_index_def go_slice_def go_slice_from_def n del: of_nat_add)
qed

lemma Decode_bytes_len_2_eq:
  "Decode_bytes_len_2 nxt =
     (case nxt of k1 # k2 # r \<Rightarrow>
          if length r < unat k1 * 256 + unat k2 + 318 then Return (Inl CorruptedBufferError)
          else Return (Inr (VBytes (take (unat k1 * 256 + unat k2 + 318) r),
                            drop (unat k1 * 256 + unat k2 + 318) r))
      | _ \<Rightarrow> Return (Inl CorruptedBufferError))"
proof (cases nxt)
  case Nil
  then show ?thesis by (simp add: Decode_bytes_len_2_def)
next
  case (Cons k1 t)
  show ?thesis
  proof (cases t)
    case Nil
    with Cons show ?thesis by (simp add: Decode_bytes_len_2_def)
  next
    case (Cons k2 r)
    have n: "uint k1 * 256 + uint k2 + 318 = int (unat k1 * 256 + unat k2 + 318)"
      by simp
    from \<open>nxt = k1 # t\<close> Cons show ?thesis
      unfolding Decode_bytes_len_2_def Let_def
      by (simp add: go_index_def go_slice_def go_slice_from_def n del: of_nat_add of_nat_mult)
  qed
qed

lemma and7_le: "unat ((k::byte) AND 7) \<le> 7"
  using word_and_le1[of k 7] by (simp add: word_le_nat_alt)

lemma and15_le: "unat ((k::byte) AND 15) \<le> 15"
  using word_and_le1[of k 15] by (simp add: word_le_nat_alt)

lemma Decode_int_positive_eq:
  "Decode_int_positive k nxt =
     (if length nxt < unat (k AND 7) + 1 then Return (Inl CorruptedBufferError)
      else Return (Inr (VInt64 (uncompactInt64 (take (unat (k AND 7) + 1) nxt) True),
                        drop (unat (k AND 7) + 1) nxt)))"
proof -
  have n: "uint (k AND 7) + 1 = int (unat (k AND 7) + 1)"
    by simp
  show ?thesis
    unfolding Decode_int_positive_def Let_def n
    by (simp add: go_slice_def go_slice_from_def del: of_nat_add of_nat_Suc)
qed

lemma Decode_int_negative_eq:
  "Decode_int_negative k nxt =
     (if length nxt < 8 - unat (k AND 7) then Return (Inl CorruptedBufferError)
      else Return (Inr (VInt64 (uncompactInt64 (take (8 - unat (k AND 7)) nxt) False),
                        drop (8 - unat (k AND 7)) nxt)))"
proof -
  have n: "8 - uint (k AND 7) = int (8 - unat (k AND 7))"
    using and7_le[of k] by (simp add: of_nat_diff)
  show ?thesis
    unfolding Decode_int_negative_def Let_def n
    by (simp add: go_slice_def go_slice_from_def del: of_nat_diff)
qed

lemma Decode_uint_var_eq:
  "Decode_uint_var k nxt =
     (if unat (k AND 15) = 0 \<or> 8 < unat (k AND 15) \<or> length nxt < unat (k AND 15)
      then Return (Inl CorruptedBufferError)
      else Return (Inr (VUint64 (uncompactUint64 (take (unat (k AND 15)) nxt)),
                        drop (unat (k AND 15)) nxt)))"
proof -
  have n: "uint (k AND 15) = int (unat (k AND 15))"
    by simp
  have z: "(int (unat (k AND 15)) = 0) = (unat (k AND 15) = 0)"
          "(8 < int (unat (k AND 15))) = (8 < unat (k AND 15))"
    by (simp_all only: of_nat_eq_0_iff, linarith)
  show ?thesis
    unfolding Decode_uint_var_def Let_def n z
    by (simp only: go_slice_def go_slice_from_def of_nat_less_iff nat_int) simp
qed

lemma Decode_eq:
  "Decode b = (case b of [] \<Rightarrow> Return (Inl EmptyBufferError) | k # nxt \<Rightarrow> Decode_switch k nxt)"
  by (cases b) (simp_all add: Decode_def go_index_def go_slice_from_def)


lemma Decode_switch_cases:
  assumes "P (Return (Inr (VNil, nxt)))"
    and "\<And>t. P (Return (Inr (VBool t, nxt)))"
    and "P (Decode_bytes_direct k nxt)"
    and "P (Decode_bytes_len_1 nxt)"
    and "P (Decode_bytes_len_2 nxt)"
    and "\<And>i. P (Return (Inr (VInt64 i, nxt)))"
    and "P (Decode_int_positive k nxt)"
    and "P (Decode_int_negative k nxt)"
    and "\<And>u. P (Return (Inr (VUint64 u, nxt)))"
    and "P (Decode_uint_var k nxt)"
    and "P (Return (Inl CorruptedBufferError))"
  shows "P (Decode_switch k nxt)"
proof -
  have ifI: "\<And>c a b. (c \<Longrightarrow> P a) \<Longrightarrow> (\<not> c \<Longrightarrow> P b) \<Longrightarrow> P (if c then a else b)"
    by simp
  show ?thesis
    unfolding Decode_switch_def by (intro ifI assms)
qed

lemma Decode_switch_never_panics: "\<exists>r. Decode_switch k nxt = Return r"
  by (rule Decode_switch_cases)
     (simp_all add: Decode_bytes_direct_eq Decode_bytes_len_1_eq Decode_bytes_len_2_eq
        Decode_int_positive_eq Decode_int_negative_eq Decode_uint_var_eq split: list.split)

lemma Decode_never_panics: "\<exists>r. Decode b = Return r"
  by (cases b) (simp_all add: Decode_eq Decode_switch_never_panics)

lemma Decode_switch_consumes:
  "Decode_switch k nxt = Return (Inr (v, rest)) \<longrightarrow> length rest \<le> length nxt"
  by (rule Decode_switch_cases)
     (auto simp: Decode_bytes_direct_eq Decode_bytes_len_1_eq Decode_bytes_len_2_eq
        Decode_int_positive_eq Decode_int_negative_eq Decode_uint_var_eq split: list.split)

lemma Decode_consumes:
  "Decode b = Return (Inr (v, next)) \<Longrightarrow> length next < length b"
  using Decode_switch_consumes by (cases b) (auto simp: Decode_eq le_imp_less_Suc)

lemma Decode_switch_error:
  "Decode_switch k nxt = Return (Inl e) \<longrightarrow> e = CorruptedBufferError"
  by (rule Decode_switch_cases)
     (simp_all add: Decode_bytes_direct_eq Decode_bytes_len_1_eq Decode_bytes_len_2_eq
        Decode_int_positive_eq Decode_int_negative_eq Decode_uint_var_eq split: list.split)

lemma Decode_EmptyBuffer_iff: "Decode b = Return (Inl EmptyBufferError) \<longleftrightarrow> b = []"
  using Decode_switch_error by (cases b) (auto simp: Decode_eq)

lemma Decode_error_kinds:
  "Decode b = Return (Inl e) \<Longrightarrow> e = EmptyBufferError \<or> e = CorruptedBufferError"
  using Decode_switch_error by (cases b) (auto simp: Decode_eq)

text \<open>What \<open>DecodeAll\<close> does to a decoded value before it appends it.\<close>

definition DecodeAll_conv :: "bool \<Rightarrow> val \<Rightarrow> val" where
  "DecodeAll_conv strings v =
     (if strings then (case v of VBytes sb \<Rightarrow> VString sb | _ \<Rightarrow> v) else v)"

text \<open>
  The loop of \<open>DecodeAll\<close>, with the rest of the buffer and the results so far. It
  returns Go's pair: the list (or \<open>nil\<close>) and the error (or \<open>nil\<close>).
\<close>

function DecodeAll_loop ::
  "bool \<Rightarrow> byte list \<Rightarrow> val list \<Rightarrow> (val list option \<times> error option) exec" where
  "DecodeAll_loop strings b res =
     (case Decode b of
        Panic s \<Rightarrow> Panic s
      | Return (Inl err) \<Rightarrow>
          if err = EmptyBufferError then Return (Some res, None)
          else Return (None, Some err)
      | Return (Inr (v, next)) \<Rightarrow>
          DecodeAll_loop strings next (res @ [DecodeAll_conv strings v]))"
  by pat_completeness auto
termination
  by (relation "measure (\<lambda>(strings, b, res). length b)") (auto dest: Decode_consumes)

declare DecodeAll_loop.simps [simp del]

definition DecodeAll :: "bool \<Rightarrow> byte list \<Rightarrow> (val list option \<times> error option) exec" where
  "DecodeAll strings b = DecodeAll_loop strings b []"

text \<open>
  Successive single steps of \<open>Decode\<close>: \<open>decodes b vs b'\<close> when \<open>Decode\<close>, applied
  again and again from \<open>b\<close>, returns the values \<open>vs\<close> in turn and leaves \<open>b'\<close>.
\<close>

inductive decodes :: "byte list \<Rightarrow> val list \<Rightarrow> byte list \<Rightarrow> bool" where
  decodes_Nil: "decodes b [] b"
| decodes_Cons:
    "Decode b = Return (Inr (v, next)) \<Longrightarrow> decodes next vs b' \<Longrightarrow> decodes b (v # vs) b'"

text \<open>
  What the loop of \<open>DecodeAll\<close> returns when, with the results \<open>res\<close> so far, a
  single step ends in the error \<open>e\<close>.
\<close>

definition DecodeAll_result ::
  "val list \<Rightarrow> error \<Rightarrow> (val list option \<times> error option) exec" where
  "DecodeAll_result res e =
     (if e = EmptyBufferError then Return (Some res, None) else Return (None, Some e))"

section \<open>Words and bits\<close>

lemma uint_drop_bit: "uint (drop_bit n (w::'a::len word)) = drop_bit n (uint w)"
  by (metis ucast_id unsigned_drop_bit_eq unsigned_ucast_eq)

lemma drop_bit_zero_iff: "drop_bit n (w::'a::len word) = 0 \<longleftrightarrow> uint w < 2 ^ n"
proof -
  have "drop_bit n w = 0 \<longleftrightarrow> uint (drop_bit n w) = 0"
    by (simp add: uint_0_iff)
  also have "uint (drop_bit n w) = uint w div 2 ^ n"
    unfolding uint_drop_bit by (rule drop_bit_eq_div)
  also have "uint w div 2 ^ n = 0 \<longleftrightarrow> uint w < 2 ^ n"
    by (auto simp: zdiv_eq_0_iff)
  finally show ?thesis .
qed

lemma uint_eq_sint_nonneg:
  assumes "0 \<le> sint (w::'a::len word)"
  shows "uint w = sint w"
proof -
  have "(2::int) ^ (LENGTH('a) - 1) \<le> 2 ^ LENGTH('a)"
    by (intro power_increasing) simp_all
  then have "sint w < 2 ^ LENGTH('a)"
    using sint_lt[of w] by linarith
  then have "take_bit LENGTH('a) (sint w) = sint w"
    using assms by (simp add: take_bit_int_eq_self)
  then show ?thesis
    by (simp add: uint_sint)
qed

lemma uint_eq_sint_neg:
  assumes "sint (w::'a::len word) < 0"
  shows "uint w = sint w + 2 ^ LENGTH('a)"
proof -
  have "(2::int) ^ (LENGTH('a) - 1) \<le> 2 ^ LENGTH('a)"
    by (intro power_increasing) simp_all
  then have "- (2 ^ LENGTH('a)) \<le> sint w"
    using sint_ge[of w] by linarith
  then have "(sint w + 2 ^ LENGTH('a)) mod 2 ^ LENGTH('a) = sint w + 2 ^ LENGTH('a)"
    using assms by (intro mod_pos_pos_trivial) simp_all
  then have "sint w mod 2 ^ LENGTH('a) = sint w + 2 ^ LENGTH('a)"
    by simp
  then show ?thesis
    by (simp add: uint_sint take_bit_eq_mod)
qed

lemma uint_NOT: "uint (NOT w) = 2 ^ LENGTH('a) - 1 - uint (w::'a::len word)"
proof -
  have "NOT w = - 1 - w"
    by (simp add: not_eq_complement)
  moreover have "uint (- 1 - w) = uint (- 1 :: 'a word) - uint w"
    by (subst uint_sub_lem[symmetric]) (simp add: word_le_def flip: word_le_def)
  moreover have "uint (- 1 :: 'a word) = 2 ^ LENGTH('a) - 1"
    by (simp add: unsigned_minus_1_eq_mask mask_eq_exp_minus_1)
  ultimately show ?thesis by simp
qed

lemma uint_NOT_neg: "sint (w::'a::len word) < 0 \<Longrightarrow> uint (NOT w) = - 1 - sint w"
  by (simp add: uint_NOT uint_eq_sint_neg)

lemma ff_eq_mask: "(0xff::64 word) = mask 8"
  by (simp add: mask_eq_exp_minus_1)

lemma ff_step:
  assumes a: "drop_bit n v AND 0xff = 0xff" and b: "drop_bit (n + 8) (NOT v) = 0"
  shows "drop_bit n (NOT (v::64 word)) = 0"
proof (rule bit_eqI)
  fix i
  have A: "bit v (n + i)" if "i < 8" for i
  proof -
    have "bit (drop_bit n v AND mask 8) i = bit (mask 8 :: 64 word) i"
      using a by (simp add: ff_eq_mask)
    with that show ?thesis by (simp add: bit_simps)
  qed
  have B: "\<not> bit (NOT v) (n + 8 + j)" for j
  proof -
    have "bit (drop_bit (n + 8) (NOT v)) j = bit (0 :: 64 word) j"
      using b by simp
    then show ?thesis by (simp add: bit_simps)
  qed
  show "bit (drop_bit n (NOT v)) i = bit (0 :: 64 word) i"
  proof (cases "i < 8")
    case True
    then show ?thesis using A[of i] by (simp add: bit_simps)
  next
    case False
    then have "n + i = n + 8 + (i - 8)" by simp
    then show ?thesis using B[of "i - 8"] by (simp add: bit_simps)
  qed
qed

lemma not_ff:
  assumes "n + 8 \<le> 64" and "drop_bit n v AND 0xff \<noteq> 0xff"
  shows "drop_bit n (NOT (v::64 word)) \<noteq> 0"
proof
  assume z: "drop_bit n (NOT v) = 0"
  have A: "bit v (n + i)" if "i < 8" for i
  proof -
    have "bit (drop_bit n (NOT v)) i = bit (0 :: 64 word) i"
      using z by simp
    with that assms(1) show ?thesis by (simp add: bit_simps)
  qed
  have "drop_bit n v AND mask 8 = mask 8"
    by (rule bit_eqI) (auto simp: bit_simps A)
  with assms(2) show False by (simp add: ff_eq_mask)
qed

section \<open>The integer compactors in closed form\<close>

lemma be_bytes_Suc: "be_bytes v (Suc n) = ucast (drop_bit (8 * n) v) # be_bytes v n"
  by (simp add: be_bytes_def)

lemma length_be_bytes [simp]: "length (be_bytes v n) = n"
  by (simp add: be_bytes_def)

lemma compact_payload_eq:
  "compact_payload v (8 * int n - 8) bb = bb @ be_bytes v n"
proof (induction n arbitrary: bb)
  case 0
  show ?case by (subst compact_payload.simps) (simp add: be_bytes_def)
next
  case (Suc n)
  have "compact_payload v (8 * int (Suc n) - 8) bb =
        compact_payload v (8 * int n - 8) (bb @ [ucast (drop_bit (8 * n) v)])"
    by (subst compact_payload.simps) (simp add: nat_mult_distrib)
  then show ?case
    by (simp add: Suc be_bytes_Suc)
qed

lemma compact_pos_scan_eq:
  "\<exists>j\<le>k. compact_pos_scan v (8 * int k) = 8 * int j \<and>
     (0 < j \<longrightarrow> drop_bit (8 * j) v \<noteq> 0) \<and>
     (drop_bit (8 * Suc k) v = 0 \<longrightarrow> drop_bit (8 * Suc j) v = 0)"
proof (induction k)
  case 0
  show ?case by (subst compact_pos_scan.simps) simp
next
  case (Suc k)
  show ?case
  proof (cases "drop_bit (8 * Suc k) v = 0")
    case True
    have "compact_pos_scan v (8 * int (Suc k)) = compact_pos_scan v (8 * int k)"
      by (subst compact_pos_scan.simps) (use True in \<open>simp add: nat_mult_distrib nat_add_distrib\<close>)
    with Suc True show ?thesis
      by (auto simp: le_Suc_eq)
  next
    case False
    have "compact_pos_scan v (8 * int (Suc k)) = 8 * int (Suc k)"
      by (subst compact_pos_scan.simps) (use False in \<open>simp add: nat_mult_distrib nat_add_distrib\<close>)
    with False show ?thesis
      by (intro exI[of _ "Suc k"]) simp
  qed
qed

lemma compactInt64_neg_scan_eq:
  "\<exists>j\<le>k. compactInt64_neg_scan v (8 * int k) = 8 * int j \<and>
     (0 < j \<longrightarrow> drop_bit (8 * j) v AND 0xff \<noteq> 0xff) \<and>
     (drop_bit (8 * Suc k) (NOT v) = 0 \<longrightarrow> drop_bit (8 * Suc j) (NOT v) = 0)"
proof (induction k)
  case 0
  show ?case by (subst compactInt64_neg_scan.simps) simp
next
  case (Suc k)
  show ?case
  proof (cases "drop_bit (8 * Suc k) v AND 0xff = 0xff")
    case True
    have "compactInt64_neg_scan v (8 * int (Suc k)) = compactInt64_neg_scan v (8 * int k)"
      by (subst compactInt64_neg_scan.simps)
         (use True in \<open>simp add: nat_mult_distrib nat_add_distrib\<close>)
    moreover have "drop_bit (8 * Suc k) (NOT v) = 0" if "drop_bit (8 * Suc (Suc k)) (NOT v) = 0"
      using ff_step[of "8 * Suc k" v] True that by simp
    ultimately show ?thesis
      using Suc by (auto simp: le_Suc_eq)
  next
    case False
    have "compactInt64_neg_scan v (8 * int (Suc k)) = 8 * int (Suc k)"
      by (subst compactInt64_neg_scan.simps)
         (use False in \<open>simp add: nat_mult_distrib nat_add_distrib\<close>)
    with False show ?thesis
      by (intro exI[of _ "Suc k"]) simp
  qed
qed

lemma go_div_8: "go_div (8 * int j) 8 = int j"
  by (simp add: go_div_def sgn_if)


lemma drop_bit_64 [simp]: "drop_bit (8 * Suc 7) (v::64 word) = 0"
  using uint_lt2p[of v] by (simp add: drop_bit_zero_iff)

lemma compact_payload_Suc:
  "compact_payload v (8 * int j) bb = bb @ be_bytes v (Suc j)"
  using compact_payload_eq[of v "Suc j" bb] by simp

lemma compactInt64_positive:
  assumes "typ AND BB_TYPE_MASK \<noteq> BB_INT_NEGATIVE_VALUE"
  shows "\<exists>j\<le>7. compactInt64 v typ = (typ + of_nat j) # be_bytes v (Suc j) \<and>
           uint v < 2 ^ (8 * Suc j) \<and> (0 < j \<longrightarrow> 2 ^ (8 * j) \<le> uint v)"
proof -
  obtain j where j: "j \<le> 7" "compact_pos_scan v (8 * int 7) = 8 * int j"
      "0 < j \<longrightarrow> drop_bit (8 * j) v \<noteq> 0" "drop_bit (8 * Suc j) v = 0"
    using compact_pos_scan_eq[of 7 v] drop_bit_64[of v] by blast
  have s: "compact_pos_scan v 56 = 8 * int j"
    using j(2) by simp
  have "compactInt64 v typ = (typ + of_nat j) # be_bytes v (Suc j)"
    using assms by (simp add: compactInt64_def Let_def s go_div_8 compact_payload_Suc)
  moreover have "uint v < 2 ^ (8 * Suc j)"
    using j(4) by (simp only: drop_bit_zero_iff)
  moreover have "0 < j \<longrightarrow> 2 ^ (8 * j) \<le> uint v"
    using j(3) by (simp add: drop_bit_zero_iff not_less)
  ultimately show ?thesis
    using j(1) by blast
qed

lemma compactUint64_eq:
  "\<exists>j\<le>7. compactUint64 v = (0x91 + of_nat j) # be_bytes v (Suc j) \<and>
           uint v < 2 ^ (8 * Suc j) \<and> (0 < j \<longrightarrow> 2 ^ (8 * j) \<le> uint v)"
proof -
  obtain j where j: "j \<le> 7" "compact_pos_scan v (8 * int 7) = 8 * int j"
      "0 < j \<longrightarrow> drop_bit (8 * j) v \<noteq> 0" "drop_bit (8 * Suc j) v = 0"
    using compact_pos_scan_eq[of 7 v] drop_bit_64[of v] by blast
  have s: "compact_pos_scan v 56 = 8 * int j"
    using j(2) by simp
  have "compactUint64 v = (0x91 + of_nat j) # be_bytes v (Suc j)"
    by (simp add: compactUint64_def Let_def s go_div_8 compact_payload_Suc)
  moreover have "uint v < 2 ^ (8 * Suc j)"
    using j(4) by (simp only: drop_bit_zero_iff)
  moreover have "0 < j \<longrightarrow> 2 ^ (8 * j) \<le> uint v"
    using j(3) by (simp add: drop_bit_zero_iff not_less)
  ultimately show ?thesis
    using j(1) by blast
qed

lemma compactInt64_negative:
  assumes "typ AND BB_TYPE_MASK = BB_INT_NEGATIVE_VALUE"
  shows "\<exists>j\<le>7. compactInt64 v typ = (typ + (7 - of_nat j)) # be_bytes v (Suc j) \<and>
           uint (NOT v) < 2 ^ (8 * Suc j) \<and> (0 < j \<longrightarrow> 2 ^ (8 * j) \<le> uint (NOT v))"
proof -
  obtain j where j: "j \<le> 7" "compactInt64_neg_scan v (8 * int 7) = 8 * int j"
      "0 < j \<longrightarrow> drop_bit (8 * j) v AND 0xff \<noteq> 0xff" "drop_bit (8 * Suc j) (NOT v) = 0"
    using compactInt64_neg_scan_eq[of 7 v] drop_bit_64[of "NOT v"] by blast
  have s: "compactInt64_neg_scan v 56 = 8 * int j"
    using j(2) by simp
  have "compactInt64 v typ = (typ + (7 - of_nat j)) # be_bytes v (Suc j)"
    using assms by (simp add: compactInt64_def Let_def s go_div_8 compact_payload_Suc)
  moreover have "uint (NOT v) < 2 ^ (8 * Suc j)"
    using j(4) by (simp only: drop_bit_zero_iff)
  moreover have "2 ^ (8 * j) \<le> uint (NOT v)" if "0 < j"
  proof -
    have "8 * j + 8 \<le> 64" using j(1) by simp
    then have "drop_bit (8 * j) (NOT v) \<noteq> 0"
      using j(3) that by (intro not_ff) simp_all
    then show ?thesis by (simp add: drop_bit_zero_iff not_less)
  qed
  ultimately show ?thesis
    using j(1) by blast
qed

section \<open>The loop of DecodeAll\<close>

lemma DecodeAll_loop_step:
  "Decode b = Return (Inr (v, nxt)) \<Longrightarrow>
   DecodeAll_loop s b res = DecodeAll_loop s nxt (res @ [DecodeAll_conv s v])"
  by (subst DecodeAll_loop.simps) simp

lemma DecodeAll_loop_stop:
  "Decode b = Return (Inl e) \<Longrightarrow>
   DecodeAll_loop s b res =
     (if e = EmptyBufferError then Return (Some res, None) else Return (None, Some e))"
  by (subst DecodeAll_loop.simps) simp

lemma decodes_step:
  "Decode b = Return (Inr (v, nxt)) \<Longrightarrow>
   decodes b vs b' \<longleftrightarrow> (vs = [] \<and> b' = b) \<or> (\<exists>vs'. vs = v # vs' \<and> decodes nxt vs' b')"
  by (subst decodes.simps) auto

lemma decodes_stop:
  "Decode b = Return (Inl e) \<Longrightarrow> decodes b vs b' \<longleftrightarrow> vs = [] \<and> b' = b"
  by (subst decodes.simps) auto

lemma DecodeAll_loop_char:
  "DecodeAll_loop s b res = out \<longleftrightarrow>
     (\<exists>vs b' e. decodes b vs b' \<and> Decode b' = Return (Inl e) \<and>
        out = DecodeAll_result (res @ map (DecodeAll_conv s) vs) e)"
proof (induction b arbitrary: res rule: length_induct)
  case (1 b)
  obtain x where x: "Decode b = Return x"
    using Decode_never_panics by blast
  show ?case
  proof (cases x)
    case (Inl e')
    with x have D: "Decode b = Return (Inl e')" by simp
    show ?thesis
      by (auto simp: DecodeAll_loop_stop[OF D] decodes_stop[OF D] D DecodeAll_result_def)
  next
    case (Inr p)
    obtain v nxt where p: "p = (v, nxt)" by (cases p)
    from x Inr p have D: "Decode b = Return (Inr (v, nxt))" by simp
    have less: "length nxt < length b"
      using D by (rule Decode_consumes)
    let ?c = "DecodeAll_conv s"
    have IH: "DecodeAll_loop s nxt (res @ [?c v]) = out \<longleftrightarrow>
       (\<exists>vs b' e. decodes nxt vs b' \<and> Decode b' = Return (Inl e) \<and>
          out = DecodeAll_result ((res @ [?c v]) @ map ?c vs) e)" (is "_ \<longleftrightarrow> ?R")
      using 1 less by blast
    have "(\<exists>vs b' e. decodes b vs b' \<and> Decode b' = Return (Inl e) \<and>
             out = DecodeAll_result (res @ map ?c vs) e) \<longleftrightarrow> ?R" (is "?L \<longleftrightarrow> _")
    proof
      assume ?L
      then obtain vs b' e where h: "decodes b vs b'" "Decode b' = Return (Inl e)"
          "out = DecodeAll_result (res @ map ?c vs) e"
        by blast
      from h(1) consider "vs = [] \<and> b' = b"
        | vs' where "vs = v # vs'" "decodes nxt vs' b'"
        using decodes_step[OF D] by blast
      then show ?R
      proof cases
        case 1
        with h(2) D show ?thesis by simp
      next
        case 2
        with h(2,3) show ?thesis by auto
      qed
    next
      assume ?R
      then obtain vs' b' e where h: "decodes nxt vs' b'" "Decode b' = Return (Inl e)"
          "out = DecodeAll_result ((res @ [?c v]) @ map ?c vs') e"
        by blast
      have "decodes b (v # vs') b'"
        using D h(1) by (rule decodes_Cons)
      moreover have "out = DecodeAll_result (res @ map ?c (v # vs')) e"
        using h(3) by simp
      ultimately show ?L
        using h(2) by blast
    qed
    then show ?thesis
      unfolding DecodeAll_loop_step[OF D] IH by simp
  qed
qed

lemma DecodeAll_char:
  "\<exists>vs b' e. decodes b vs b' \<and> Decode b' = Return (Inl e) \<and>
     DecodeAll s b = DecodeAll_result (map (DecodeAll_conv s) vs) e"
  using DecodeAll_loop_char[of s b "[]" "DecodeAll s b"] by (simp add: DecodeAll_def)

section \<open>The length bands of EncodeBytes\<close>

lemma EncodeBytes_direct_band:
  "length bb \<le> 60 \<Longrightarrow> EncodeBytes bb = Return ((0x10 OR of_nat (length bb)) # bb)"
  by (simp add: EncodeBytes_def)

lemma EncodeBytes_len_1_band:
  "60 < length bb \<Longrightarrow> length bb \<le> 316 \<Longrightarrow>
   EncodeBytes bb = Return (0x4D # of_nat (length bb - 61) # bb)"
  by (simp add: EncodeBytes_def of_nat_diff)

lemma drop_bit_int_diff:
  assumes "c \<le> n"
  shows "drop_bit k (int n - int c) = int ((n - c) div 2 ^ k)"
proof -
  have "int n - int c = int (n - c)"
    using assms by (simp add: of_nat_diff)
  then show ?thesis
    by (simp only: drop_bit_eq_div zdiv_int of_nat_power of_nat_numeral)
qed

lemma EncodeBytes_len_2_band:
  assumes "316 < length bb" "length bb \<le> 65852"
  shows "EncodeBytes bb =
     Return (0x4E # of_nat ((length bb - 317) div 256) # of_nat (length bb - 317) # bb)"
proof -
  have d: "drop_bit 8 (int (length bb) - 317) = int ((length bb - 317) div 256)"
    using drop_bit_int_diff[of 317 "length bb" 8] assms by simp
  have z: "drop_bit 0 (int (length bb) - 317) = int (length bb - 317)"
    using assms by (simp add: of_nat_diff)
  have c: "\<not> int (length bb) \<le> 60" "\<not> int (length bb) \<le> 61 + 0xff"
    "int (length bb) \<le> 317 + 0xffff"
    using assms by simp_all
  show ?thesis
    unfolding EncodeBytes_def Let_def
    by (simp only: c d z if_True if_False append_Cons append_Nil of_int_of_nat_eq)
qed

lemma EncodeBytes_len_4_band:
  assumes "65852 < length bb" "int (length bb) \<le> 65851 + 0xffffffff"
  shows "EncodeBytes bb =
     Return (0x4E # of_nat ((length bb - 65851) div 2 ^ 24) #
             of_nat ((length bb - 65851) div 2 ^ 16) #
             of_nat ((length bb - 65851) div 2 ^ 8) #
             of_nat (length bb - 65851) # bb)"
proof -
  have d: "drop_bit k (int (length bb) - 65851) = int ((length bb - 65851) div 2 ^ k)" for k
    using drop_bit_int_diff[of 65851 "length bb" k] assms by simp
  have z: "drop_bit 0 (int (length bb) - 65851) = int (length bb - 65851)"
    using assms by (simp add: of_nat_diff)
  have c: "\<not> int (length bb) \<le> 60" "\<not> int (length bb) \<le> 61 + 0xff"
    "\<not> int (length bb) \<le> 317 + 0xffff"
    using assms by simp_all
  show ?thesis
    unfolding EncodeBytes_def Let_def
    by (simp only: c assms(2) z d[of 24] d[of 16] d[of 8] if_True if_False append_Cons append_Nil
          of_int_of_nat_eq)
qed

lemma unat_byte_of_nat: "unat (of_nat m :: byte) = m mod 256"
  by (simp add: unat_of_nat)


lemma Decode_switch_len_tags:
  "Decode_switch 0x4D nxt = Decode_bytes_len_1 nxt"
  "Decode_switch 0x4E nxt = Decode_bytes_len_2 nxt"
  by (simp_all add: Decode_switch_def)

lemma unat_byte_le: "unat (k::byte) \<le> 255"
  using unsigned_less[of k, where ?'a = nat] by simp

lemma Decode_len_1_band_corrupted:
  assumes "60 < length bb" "length bb \<le> 316"
  shows "exec_bind (EncodeBytes bb) Decode = Return (Inl CorruptedBufferError)"
proof -
  have "(length bb - 61) mod 256 = length bb - 61"
    using assms by simp
  then have "unat (of_nat (length bb - 61) :: byte) = length bb - 61"
    by (simp only: unat_byte_of_nat)
  then show ?thesis
    using assms
    by (simp add: EncodeBytes_len_1_band Decode_eq Decode_switch_len_tags Decode_bytes_len_1_eq)
qed

lemma Decode_len_2_band_corrupted:
  assumes "316 < length bb" "length bb \<le> 65852"
  shows "exec_bind (EncodeBytes bb) Decode = Return (Inl CorruptedBufferError)"
proof -
  let ?m = "length bb - 317"
  have m: "?m < 65536" using assms by simp
  then have "(?m div 256) mod 256 = ?m div 256" by simp
  then have "unat (of_nat (?m div 256) :: byte) = ?m div 256"
    by (simp only: unat_byte_of_nat)
  moreover have "unat (of_nat ?m :: byte) = ?m mod 256"
    by (simp only: unat_byte_of_nat)
  ultimately have "unat (of_nat (?m div 256) :: byte) * 256 + unat (of_nat ?m :: byte) + 318
      = length bb + 1"
    using assms by simp
  then show ?thesis
    using assms
    by (simp add: EncodeBytes_len_2_band Decode_eq Decode_switch_len_tags Decode_bytes_len_2_eq)
qed

lemma Decode_len_4_band_no_error:
  assumes "65852 < length bb" "int (length bb) \<le> 65851 + 0xffffffff"
  shows "\<exists>v rest. exec_bind (EncodeBytes bb) Decode = Return (Inr (VBytes v, rest)) \<and>
           length v \<le> 65853 \<and> 2 \<le> length rest"
proof -
  let ?m = "length bb - 65851"
  let ?k1 = "of_nat (?m div 2 ^ 24) :: byte"
  let ?k2 = "of_nat (?m div 2 ^ 16) :: byte"
  let ?n = "unat ?k1 * 256 + unat ?k2 + 318"
  let ?r = "of_nat (?m div 2 ^ 8) # of_nat ?m # bb"
  have n: "?n \<le> 65853"
    using unat_byte_le[of ?k1] unat_byte_le[of ?k2] by linarith
  then have l: "\<not> length ?r < ?n"
    using assms(1) by simp
  have "exec_bind (EncodeBytes bb) Decode = Return (Inr (VBytes (take ?n ?r), drop ?n ?r))"
    unfolding EncodeBytes_len_4_band[OF assms] exec_bind.simps Decode_eq list.case
      Decode_switch_len_tags Decode_bytes_len_2_eq
    using l by (simp only: if_False)
  moreover have "length (take ?n ?r) \<le> 65853"
    using n by simp
  moreover have "2 \<le> length (drop ?n ?r)"
    using n assms(1) by simp
  ultimately show ?thesis by blast
qed


lemma Decode_switch_direct_tag:
  assumes "l \<le> 60"
  shows "Decode_switch (0x10 OR of_nat l) nxt = Decode_bytes_direct (0x10 OR of_nat l) nxt \<and>
         unat ((0x10 OR of_nat l :: byte) - 0x10) =
           (if l < 16 \<or> (32 \<le> l \<and> l < 48) then l else l - 16)"
proof -
  have "l = 0 \<or> l = 1 \<or> l = 2 \<or> l = 3 \<or> l = 4 \<or> l = 5 \<or> l = 6 \<or> l = 7 \<or> l = 8 \<or> l = 9 \<or> l = 10 \<or> l = 11 \<or> l = 12 \<or> l = 13 \<or> l = 14 \<or> l = 15 \<or> l = 16 \<or> l = 17 \<or> l = 18 \<or> l = 19 \<or> l = 20 \<or> l = 21 \<or> l = 22 \<or> l = 23 \<or> l = 24 \<or> l = 25 \<or> l = 26 \<or> l = 27 \<or> l = 28 \<or> l = 29 \<or> l = 30 \<or> l = 31 \<or> l = 32 \<or> l = 33 \<or> l = 34 \<or> l = 35 \<or> l = 36 \<or> l = 37 \<or> l = 38 \<or> l = 39 \<or> l = 40 \<or> l = 41 \<or> l = 42 \<or> l = 43 \<or> l = 44 \<or> l = 45 \<or> l = 46 \<or> l = 47 \<or> l = 48 \<or> l = 49 \<or> l = 50 \<or> l = 51 \<or> l = 52 \<or> l = 53 \<or> l = 54 \<or> l = 55 \<or> l = 56 \<or> l = 57 \<or> l = 58 \<or> l = 59 \<or> l = 60"
    using assms by arith
  then show ?thesis
    by (elim disjE) (simp_all add: Decode_switch_def)
qed

lemma Decode_direct_band:
  assumes "length bb \<le> 60"
  shows "exec_bind (EncodeBytes bb) Decode =
     (if length bb < 16 \<or> (32 \<le> length bb \<and> length bb < 48)
      then Return (Inr (VBytes bb, []))
      else Return (Inr (VBytes (take (length bb - 16) bb), drop (length bb - 16) bb)))"
proof -
  let ?k = "0x10 OR of_nat (length bb) :: byte"
  let ?n = "if length bb < 16 \<or> (32 \<le> length bb \<and> length bb < 48)
            then length bb else length bb - 16"
  have t: "Decode_switch ?k bb = Decode_bytes_direct ?k bb" and u: "unat (?k - 0x10) = ?n"
    using Decode_switch_direct_tag[OF assms, of bb] by simp_all
  have "exec_bind (EncodeBytes bb) Decode = Decode_bytes_direct ?k bb"
    by (simp only: EncodeBytes_direct_band[OF assms] exec_bind.simps Decode_eq list.case t)
  also have "\<dots> = Return (Inr (VBytes (take ?n bb), drop ?n bb))"
    unfolding Decode_bytes_direct_eq u by auto
  also have "\<dots> = (if length bb < 16 \<or> (32 \<le> length bb \<and> length bb < 48)
      then Return (Inr (VBytes bb, []))
      else Return (Inr (VBytes (take (length bb - 16) bb), drop (length bb - 16) bb)))"
    by simp
  finally show ?thesis .
qed

section \<open>Integers decode to what was encoded\<close>

text \<open>
  \<open>uncompactInt64\<close> and \<open>uncompactUint64\<close> shift the payload bytes in one by one;
  on the low bytes of a value they rebuild the value when the bytes left out are all
  zero (or all \<open>0xff\<close>, with the accumulator starting at \<open>-1\<close>).
\<close>

lemma uncompact_step_bits:
  "push_bit (8 * k) (push_bit 8 acc OR ucast (ucast (drop_bit (8 * k) v) :: byte)) OR
     take_bit (8 * k) v =
   push_bit (8 * Suc k) acc OR take_bit (8 * Suc k) (v::64 word)"
proof (rule bit_eqI)
  fix i
  assume "possible_bit TYPE(64 word) i"
  then have i: "i < 64" by simp
  consider "i < 8 * k" | "8 * k \<le> i" "i < 8 * k + 8" | "8 * k + 8 \<le> i"
    by linarith
  then show "bit (push_bit (8 * k) (push_bit 8 acc OR ucast (ucast (drop_bit (8 * k) v) :: byte)) OR
          take_bit (8 * k) v) i =
        bit (push_bit (8 * Suc k) acc OR take_bit (8 * Suc k) v) i"
  proof cases
    case 1
    then show ?thesis by (simp add: bit_simps i)
  next
    case 2
    then have "i - 8 * k < 8" by simp
    with 2 show ?thesis by (simp add: bit_simps i)
  next
    case 3
    then have "\<not> i - 8 * k < 8" "i - 8 * k - 8 = i - (8 + 8 * k)" by simp_all
    with 3 show ?thesis by (simp add: bit_simps i)
  qed
qed

lemma foldl_be_bytes:
  "foldl (\<lambda>l b. push_bit 8 l OR ucast b) acc (be_bytes v k) =
     push_bit (8 * k) acc OR take_bit (8 * k) v"
proof (induction k arbitrary: acc)
  case 0
  show ?case by (simp add: be_bytes_def)
next
  case (Suc k)
  show ?case
    using uncompact_step_bits[of k acc v] by (simp add: be_bytes_Suc Suc)
qed


lemma take_bit_self:
  assumes "drop_bit m v = 0"
  shows "take_bit m v = (v::64 word)"
proof (rule bit_eqI)
  fix i
  have A: "\<not> bit v (m + j)" for j
  proof -
    have "bit (drop_bit m v) j = bit (0 :: 64 word) j"
      using assms by simp
    then show ?thesis by (simp add: bit_simps)
  qed
  show "bit (take_bit m v) i = bit v i"
  proof (cases "i < m")
    case True
    then show ?thesis by (simp add: bit_simps)
  next
    case False
    then have "\<not> bit v i" using A[of "i - m"] by simp
    with False show ?thesis by (simp add: bit_simps)
  qed
qed

lemma ones_above:
  assumes "drop_bit m (NOT v) = 0"
  shows "push_bit m (- 1) OR take_bit m v = (v::64 word)"
proof (rule bit_eqI)
  fix i
  assume "possible_bit TYPE(64 word) i"
  then have i: "i < 64" by simp
  have A: "bit v (m + j)" if "m + j < 64" for j
  proof -
    have "bit (drop_bit m (NOT v)) j = bit (0 :: 64 word) j"
      using assms by simp
    with that show ?thesis by (simp add: bit_simps)
  qed
  show "bit (push_bit m (- 1) OR take_bit m v) i = bit v i"
  proof (cases "i < m")
    case True
    then show ?thesis by (simp add: bit_simps i)
  next
    case False
    then have "bit v i" using A[of "i - m"] i by simp
    with False show ?thesis by (simp add: bit_simps i)
  qed
qed

lemma small_nat_cases:
  "j \<le> 7 \<Longrightarrow> j = 0 \<or> j = 1 \<or> j = 2 \<or> j = 3 \<or> j = 4 \<or> j = 5 \<or> j = 6 \<or> j = (7::nat)"
  by arith

lemma Decode_switch_positive_tag:
  "j \<le> 7 \<Longrightarrow> Decode_switch (0xE8 + of_nat j) nxt = Decode_int_positive (0xE8 + of_nat j) nxt \<and>
     unat ((0xE8 + of_nat j :: byte) AND 7) = j"
  by (drule small_nat_cases) (elim disjE; simp add: Decode_switch_def)

lemma Decode_switch_negative_tag:
  "j \<le> 7 \<Longrightarrow>
     Decode_switch (0x60 + (7 - of_nat j)) nxt = Decode_int_negative (0x60 + (7 - of_nat j)) nxt \<and>
     8 - unat ((0x60 + (7 - of_nat j) :: byte) AND 7) = Suc j"
  by (drule small_nat_cases) (elim disjE; simp add: Decode_switch_def)

lemma Decode_switch_uint_tag:
  "j \<le> 7 \<Longrightarrow> Decode_switch (0x91 + of_nat j) nxt = Decode_uint_var (0x91 + of_nat j) nxt \<and>
     unat ((0x91 + of_nat j :: byte) AND 15) = Suc j"
  by (drule small_nat_cases) (elim disjE; simp add: Decode_switch_def)


lemma uncompactInt64_be_bytes_positive:
  "uint v < 2 ^ (8 * n) \<Longrightarrow> uncompactInt64 (be_bytes v n) True = v"
  by (simp add: uncompactInt64_def foldl_be_bytes take_bit_self drop_bit_zero_iff)

lemma uncompactUint64_be_bytes:
  "uint v < 2 ^ (8 * n) \<Longrightarrow> uncompactUint64 (be_bytes v n) = v"
  by (simp add: uncompactUint64_def foldl_be_bytes take_bit_self drop_bit_zero_iff)

lemma uncompactInt64_be_bytes_negative:
  "uint (NOT v) < 2 ^ (8 * n) \<Longrightarrow> uncompactInt64 (be_bytes v n) False = v"
proof -
  assume "uint (NOT v) < 2 ^ (8 * n)"
  then have "drop_bit (8 * n) (NOT v) = 0"
    by (simp only: drop_bit_zero_iff)
  then have "push_bit (8 * n) (- 1) OR take_bit (8 * n) v = v"
    by (rule ones_above)
  then show ?thesis
    by (simp only: uncompactInt64_def foldl_be_bytes simp_thms if_True)
qed

lemma small_int_cases:
  assumes "\<not> sint (i::int64) < - 8" "\<not> 7 < sint i"
  shows "i \<in> {0, 1, 2, 3, 4, 5, 6, 7, - 1, - 2, - 3, - 4, - 5, - 6, - 7, - 8}"
proof -
  have "sint i = 0 \<or> sint i = 1 \<or> sint i = 2 \<or> sint i = 3 \<or> sint i = 4 \<or> sint i = 5 \<or>
        sint i = 6 \<or> sint i = 7 \<or> sint i = - 1 \<or> sint i = - 2 \<or> sint i = - 3 \<or>
        sint i = - 4 \<or> sint i = - 5 \<or> sint i = - 6 \<or> sint i = - 7 \<or> sint i = - 8"
    using assms by arith
  moreover have "i = word_of_int (sint i)"
    by simp
  ultimately show ?thesis
    by (elim disjE) (simp_all only: , simp_all)
qed


lemma small_uint_cases:
  assumes "uint (u::uint64) \<le> 16"
  shows "u \<in> {0, 1, 2, 3, 4, 5, 6, 7, 8, 9, 10, 11, 12, 13, 14, 15, 16}"
proof -
  have "0 \<le> uint u" by simp
  with assms have "uint u = 0 \<or> uint u = 1 \<or> uint u = 2 \<or> uint u = 3 \<or> uint u = 4 \<or>
        uint u = 5 \<or> uint u = 6 \<or> uint u = 7 \<or> uint u = 8 \<or> uint u = 9 \<or> uint u = 10 \<or>
        uint u = 11 \<or> uint u = 12 \<or> uint u = 13 \<or> uint u = 14 \<or> uint u = 15 \<or> uint u = 16"
    by arith
  moreover have "u = word_of_int (uint u)"
    by simp
  ultimately show ?thesis
    by (elim disjE) (simp_all only: , simp_all)
qed

lemma Decode_EncodeInt64: "Decode (EncodeInt64 i) = Return (Inr (VInt64 i, []))"
proof -
  consider (neg) "sint i < - 8" | (pos) "7 < sint i" | (small) "\<not> sint i < - 8" "\<not> 7 < sint i"
    by linarith
  then show ?thesis
  proof cases
    case neg
    then have e: "EncodeInt64 i = compactInt64 i 0x60"
      by (simp add: EncodeInt64_def)
    obtain j where j: "j \<le> 7"
        "compactInt64 i 0x60 = (0x60 + (7 - of_nat j)) # be_bytes i (Suc j)"
        "uint (NOT i) < 2 ^ (8 * Suc j)"
      using compactInt64_negative[of "0x60" i] by auto
    from Decode_switch_negative_tag[OF j(1), of "be_bytes i (Suc j)"]
    show ?thesis
      by (simp add: e j(2) Decode_eq Decode_int_negative_eq
            uncompactInt64_be_bytes_negative[OF j(3)])
  next
    case pos
    then have e: "EncodeInt64 i = compactInt64 i 0xE8"
      by (simp add: EncodeInt64_def)
    obtain j where j: "j \<le> 7"
        "compactInt64 i 0xE8 = (0xE8 + of_nat j) # be_bytes i (Suc j)"
        "uint i < 2 ^ (8 * Suc j)"
      using compactInt64_positive[of "0xE8" i] by auto
    from Decode_switch_positive_tag[OF j(1), of "be_bytes i (Suc j)"]
    show ?thesis
      by (simp add: e j(2) Decode_eq Decode_int_positive_eq
            uncompactInt64_be_bytes_positive[OF j(3)])
  next
    case small
    then have "i \<in> {0, 1, 2, 3, 4, 5, 6, 7, - 1, - 2, - 3, - 4, - 5, - 6, - 7, - 8}"
      by (rule small_int_cases)
    then show ?thesis
      by (elim insertE emptyE) (simp_all add: EncodeInt64_def Decode_eq Decode_switch_def)
  qed
qed

lemma Decode_EncodeUint64: "Decode (EncodeUint64 u) = Return (Inr (VUint64 u, []))"
proof (cases "uint u \<le> 16")
  case True
  then have "u \<in> {0, 1, 2, 3, 4, 5, 6, 7, 8, 9, 10, 11, 12, 13, 14, 15, 16}"
    by (rule small_uint_cases)
  then show ?thesis
    by (elim insertE emptyE) (simp_all add: EncodeUint64_def Decode_eq Decode_switch_def)
next
  case False
  then have e: "EncodeUint64 u = compactUint64 u"
    by (simp add: EncodeUint64_def)
  obtain j where j: "j \<le> 7"
      "compactUint64 u = (0x91 + of_nat j) # be_bytes u (Suc j)"
      "uint u < 2 ^ (8 * Suc j)"
    using compactUint64_eq[of u] by auto
  from Decode_switch_uint_tag[OF j(1), of "be_bytes u (Suc j)"] j(1)
  show ?thesis
    by (simp add: e j(2) Decode_eq Decode_uint_var_eq uncompactUint64_be_bytes[OF j(3)])
qed

section \<open>Tags outside the defined bands\<close>

lemma byte_between:
  assumes "a \<le> (k::byte)" "k \<le> b"
  shows "\<exists>n. k = of_nat n \<and> unat a \<le> n \<and> n \<le> unat b"
  using assms by (intro exI[of _ "unat k"]) (simp add: word_le_nat_alt)

lemma Decode_reserved_date_tags:
  assumes "0x50 \<le> k" "k \<le> 0x5F"
  shows "Decode (k # r) = Return (Inl CorruptedBufferError)"
proof -
  obtain n where n: "k = of_nat n" "80 \<le> n" "n \<le> 95"
    using byte_between[OF assms] by auto
  from n(2,3) have "n = 80 \<or> n = 81 \<or> n = 82 \<or> n = 83 \<or> n = 84 \<or> n = 85 \<or> n = 86 \<or> n = 87 \<or> n = 88 \<or> n = 89 \<or> n = 90 \<or> n = 91 \<or> n = 92 \<or> n = 93 \<or> n = 94 \<or> n = 95"
    by arith
  then show ?thesis
    unfolding n(1) by (elim disjE) (simp_all add: Decode_eq Decode_switch_def)
qed

lemma Decode_reserved_double_tags:
  assumes "0xF0 \<le> k" "k \<le> 0xF7"
  shows "Decode (k # r) = Return (Inl CorruptedBufferError)"
proof -
  obtain n where n: "k = of_nat n" "240 \<le> n" "n \<le> 247"
    using byte_between[OF assms] by auto
  from n(2,3) have "n = 240 \<or> n = 241 \<or> n = 242 \<or> n = 243 \<or> n = 244 \<or> n = 245 \<or> n = 246 \<or> n = 247"
    by arith
  then show ?thesis
    unfolding n(1) by (elim disjE) (simp_all add: Decode_eq Decode_switch_def)
qed

lemma Decode_tag_4F: "Decode (0x4F # r) = Return (Inl CorruptedBufferError)"
  by (simp add: Decode_eq Decode_switch_def)

lemma Decode_double_tags_as_negative:
  assumes "0x70 \<le> k" "k \<le> 0x77"
  shows "Decode (k # r) = Decode_int_negative k r"
proof -
  obtain n where n: "k = of_nat n" "112 \<le> n" "n \<le> 119"
    using byte_between[OF assms] by auto
  from n(2,3) have "n = 112 \<or> n = 113 \<or> n = 114 \<or> n = 115 \<or> n = 116 \<or> n = 117 \<or> n = 118 \<or> n = 119"
    by arith
  then show ?thesis
    unfolding n(1) by (elim disjE) (simp_all add: Decode_eq Decode_switch_def)
qed

lemma Decode_double_tags_succeed:
  assumes "0x70 \<le> k" "k \<le> 0x77" "8 \<le> length r"
  shows "\<exists>i rest. Decode (k # r) = Return (Inr (VInt64 i, rest))"
  using assms(3) and7_le[of k]
  by (simp add: Decode_double_tags_as_negative[OF assms(1,2)] Decode_int_negative_eq)

section \<open>Order of the integer encodings\<close>

text \<open>
  The payload of a compacted integer is a big-endian number, so payloads of one
  length compare as the numbers do; the tag grows with the payload length for
  positive values and shrinks with it for negative ones. Together: the encodings of
  two integers differ first in a byte that is smaller for the smaller integer.
\<close>

lemma differs_less_append:
  "differs_less a b \<Longrightarrow> bytes_Compare (a @ r) (b @ s) = - 1"
  by (induction a b rule: differs_less.induct) auto

lemma differs_less_bytes_Compare:
  "differs_less a b \<Longrightarrow> bytes_Compare a b = - 1"
  using differs_less_append[of a b "[]" "[]"] by simp

lemma uint_top_byte:
  "uint (ucast (drop_bit m (v::64 word)) :: byte) = uint v div 2 ^ m mod 2 ^ 8"
proof -
  have "uint (ucast (drop_bit m v) :: byte) = take_bit 8 (uint (drop_bit m v))"
    by (simp add: unsigned_ucast_eq)
  also have "\<dots> = take_bit 8 (drop_bit m (uint v))"
    by (simp only: uint_drop_bit)
  also have "\<dots> = uint v div 2 ^ m mod 2 ^ 8"
    by (simp only: take_bit_eq_mod drop_bit_eq_div)
  finally show ?thesis .
qed

lemma mod_split_byte:
  "(x::int) mod 2 ^ (8 * Suc n) = 2 ^ (8 * n) * (x div 2 ^ (8 * n) mod 2 ^ 8) + x mod 2 ^ (8 * n)"
proof -
  have "(2::int) ^ (8 * Suc n) = 2 ^ (8 * n) * 2 ^ 8"
    by (simp add: power_add)
  moreover have "x mod (2 ^ (8 * n) * 2 ^ 8) =
      2 ^ (8 * n) * (x div 2 ^ (8 * n) mod 2 ^ 8) + x mod 2 ^ (8 * n)"
    by (rule zmod_zmult2_eq) simp
  ultimately show ?thesis
    by (simp only:)
qed

lemma be_bytes_less:
  "uint a mod 2 ^ (8 * n) < uint b mod 2 ^ (8 * n) \<Longrightarrow>
   differs_less (be_bytes a n) (be_bytes b n)"
proof (induction n)
  case 0
  then show ?case by simp
next
  case (Suc n)
  let ?M = "(2::int) ^ (8 * n)"
  let ?x = "ucast (drop_bit (8 * n) a) :: byte"
  let ?y = "ucast (drop_bit (8 * n) b) :: byte"
  have la: "0 \<le> uint a mod ?M" "uint a mod ?M < ?M"
    and lb: "0 \<le> uint b mod ?M" "uint b mod ?M < ?M"
    by simp_all
  have less: "?M * uint ?x + uint a mod ?M < ?M * uint ?y + uint b mod ?M"
    using Suc.prems unfolding mod_split_byte uint_top_byte .
  have nle: "\<not> uint ?y < uint ?x"
  proof
    assume "uint ?y < uint ?x"
    then have "uint ?y + 1 \<le> uint ?x" by simp
    then have "?M * (uint ?y + 1) \<le> ?M * uint ?x"
      by (intro mult_left_mono) simp_all
    then have "?M * uint ?y + ?M \<le> ?M * uint ?x"
      by (simp add: algebra_simps)
    with less la lb show False by linarith
  qed
  show ?case
  proof (cases "uint ?x < uint ?y")
    case True
    then show ?thesis
      by (simp add: be_bytes_Suc word_less_def)
  next
    case False
    with nle have eq: "uint ?x = uint ?y" by simp
    with less have "uint a mod ?M < uint b mod ?M" by simp
    then have "differs_less (be_bytes a n) (be_bytes b n)"
      by (rule Suc.IH)
    moreover from eq have "?x = ?y"
      by (simp only: word_uint_eq_iff)
    ultimately show ?thesis
      by (simp add: be_bytes_Suc)
  qed
qed


lemma differs_less_tag:
  "uint t1 < uint t2 \<Longrightarrow> differs_less (t1 # p1) (t2 # p2)"
  by (simp add: word_less_def)

lemma differs_less_same_tag:
  "differs_less p1 p2 \<Longrightarrow> differs_less (t # p1) (t # p2)"
  by simp

lemma compact_tag_values:
  assumes "j \<le> 7"
  shows "uint (0xE8 + of_nat j :: byte) = 232 + int j"
    and "uint (0x60 + (7 - of_nat j) :: byte) = 103 - int j"
    and "uint (0x91 + of_nat j :: byte) = 145 + int j"
  using small_nat_cases[OF assms] by (elim disjE; simp)+

lemma EncodeUint64_small:
  assumes "uint u \<le> 16"
  shows "\<exists>t. EncodeUint64 u = [t] \<and> uint t = 128 + uint u"
  using small_uint_cases[OF assms]
  by (elim insertE emptyE) (simp_all add: EncodeUint64_def)

lemma EncodeInt64_small:
  assumes "\<not> sint i < - 8" "\<not> 7 < sint i"
  shows "\<exists>t. EncodeInt64 i = [t] \<and>
           uint t = (if 0 \<le> sint i then 224 + sint i else 112 + sint i)"
  using small_int_cases[OF assms]
  by (elim insertE emptyE) (simp_all add: EncodeInt64_def)

lemma neg_payload_mod:
  assumes "sint (v::64 word) < 0" "- (2 ^ m) \<le> sint v" "m \<le> 64"
  shows "uint v mod 2 ^ m = sint v + 2 ^ m"
proof -
  have u: "uint v = sint v + 2 ^ 64"
    using uint_eq_sint_neg[OF assms(1)] by simp
  have "(2::int) ^ 64 = 2 ^ (64 - m) * 2 ^ m"
    using assms(3) by (simp flip: power_add)
  then have "uint v = (sint v + 2 ^ m) + (2 ^ (64 - m) - 1) * 2 ^ m"
    using u by (simp add: algebra_simps)
  then have "uint v mod 2 ^ m = (sint v + 2 ^ m) mod 2 ^ m"
    by (simp only: mod_mult_self1)
  also have "\<dots> = sint v + 2 ^ m"
    using assms(1,2) by (intro mod_pos_pos_trivial) simp_all
  finally show ?thesis .
qed


lemma EncodeUint64_big:
  assumes "16 < uint u"
  obtains j where "j \<le> 7" "EncodeUint64 u = (0x91 + of_nat j) # be_bytes u (Suc j)"
    "uint u < 2 ^ (8 * Suc j)" "0 < j \<longrightarrow> 2 ^ (8 * j) \<le> uint u"
  using compactUint64_eq[of u] assms by (auto simp: EncodeUint64_def)

lemma EncodeInt64_positive:
  assumes "7 < sint i"
  obtains j where "j \<le> 7" "EncodeInt64 i = (0xE8 + of_nat j) # be_bytes i (Suc j)"
    "sint i < 2 ^ (8 * Suc j)" "0 < j \<longrightarrow> 2 ^ (8 * j) \<le> sint i" "uint i = sint i"
proof -
  have u: "uint i = sint i"
    using assms by (intro uint_eq_sint_nonneg) simp
  obtain j where "j \<le> 7" "compactInt64 i 0xE8 = (0xE8 + of_nat j) # be_bytes i (Suc j)"
      "uint i < 2 ^ (8 * Suc j)" "0 < j \<longrightarrow> 2 ^ (8 * j) \<le> uint i"
    using compactInt64_positive[of "0xE8" i] by auto
  then show ?thesis
    using assms u by (intro that[of j]) (simp_all add: EncodeInt64_def)
qed

lemma EncodeInt64_negative:
  assumes "sint i < - 8"
  obtains j where "j \<le> 7" "EncodeInt64 i = (0x60 + (7 - of_nat j)) # be_bytes i (Suc j)"
    "- (2 ^ (8 * Suc j)) \<le> sint i" "0 < j \<longrightarrow> sint i < - (2 ^ (8 * j))"
proof -
  have u: "uint (NOT i) = - 1 - sint i"
    using assms by (intro uint_NOT_neg) simp
  obtain j where j: "j \<le> 7"
      "compactInt64 i 0x60 = (0x60 + (7 - of_nat j)) # be_bytes i (Suc j)"
      "uint (NOT i) < 2 ^ (8 * Suc j)" "0 < j \<longrightarrow> 2 ^ (8 * j) \<le> uint (NOT i)"
    using compactInt64_negative[of "0x60" i] by auto
  have "- (2 ^ (8 * Suc j)) \<le> sint i"
    using j(3) u by linarith
  moreover have "0 < j \<longrightarrow> sint i < - (2 ^ (8 * j))"
    using j(4) u by auto
  ultimately show ?thesis
    using assms j(1,2) by (intro that[of j]) (simp_all add: EncodeInt64_def)
qed

lemma pow8_mono: "ja < jb \<Longrightarrow> (2::int) ^ (8 * Suc ja) \<le> 2 ^ (8 * jb)"
  by (intro power_increasing) simp_all

lemma EncodeUint64_differs_less:
  assumes "uint a < uint b"
  shows "differs_less (EncodeUint64 a) (EncodeUint64 b)"
proof (cases "uint b \<le> 16")
  case True
  then have "uint a \<le> 16" using assms by simp
  then obtain ta where ta: "EncodeUint64 a = [ta]" "uint ta = 128 + uint a"
    using EncodeUint64_small by blast
  obtain tb where tb: "EncodeUint64 b = [tb]" "uint tb = 128 + uint b"
    using EncodeUint64_small[OF True] by blast
  show ?thesis
    unfolding ta(1) tb(1) using assms ta(2) tb(2) by (intro differs_less_tag) simp
next
  case False
  then obtain jb where jb: "jb \<le> 7" "EncodeUint64 b = (0x91 + of_nat jb) # be_bytes b (Suc jb)"
      "uint b < 2 ^ (8 * Suc jb)" "0 < jb \<longrightarrow> 2 ^ (8 * jb) \<le> uint b"
    using EncodeUint64_big[of b] by (metis not_le)
  show ?thesis
  proof (cases "uint a \<le> 16")
    case True
    then obtain ta where ta: "EncodeUint64 a = [ta]" "uint ta = 128 + uint a"
      using EncodeUint64_small by blast
    show ?thesis
      unfolding ta(1) jb(2) using True ta(2) compact_tag_values(3)[OF jb(1)]
      by (intro differs_less_tag) simp
  next
    case False
    then obtain ja where ja: "ja \<le> 7"
        "EncodeUint64 a = (0x91 + of_nat ja) # be_bytes a (Suc ja)"
        "uint a < 2 ^ (8 * Suc ja)" "0 < ja \<longrightarrow> 2 ^ (8 * ja) \<le> uint a"
      using EncodeUint64_big[of a] by (metis not_le)
    have "\<not> jb < ja"
    proof
      assume "jb < ja"
      then have "(2::int) ^ (8 * Suc jb) \<le> 2 ^ (8 * ja)" by (rule pow8_mono)
      moreover have "2 ^ (8 * ja) \<le> uint a" using ja(4) \<open>jb < ja\<close> by simp
      ultimately show False using jb(3) assms by linarith
    qed
    then consider "ja < jb" | "ja = jb" by linarith
    then show ?thesis
    proof cases
      case 1
      then show ?thesis
        unfolding ja(2) jb(2)
        using compact_tag_values(3)[OF ja(1)] compact_tag_values(3)[OF jb(1)]
        by (intro differs_less_tag) simp
    next
      case 2
      have "uint a mod 2 ^ (8 * Suc jb) = uint a" "uint b mod 2 ^ (8 * Suc jb) = uint b"
        using ja(3) jb(3) 2 by (simp_all add: mod_pos_pos_trivial)
      then have "differs_less (be_bytes a (Suc jb)) (be_bytes b (Suc jb))"
        using assms by (intro be_bytes_less) simp
      then show ?thesis
        unfolding ja(2) jb(2) 2 by (rule differs_less_same_tag)
    qed
  qed
qed


lemma EncodeInt64_differs_less:
  assumes "sint a < sint b"
  shows "differs_less (EncodeInt64 a) (EncodeInt64 b)"
proof -
  consider (neg) "sint a < - 8" | (small) "\<not> sint a < - 8" "\<not> 7 < sint a" | (pos) "7 < sint a"
    by linarith
  then show ?thesis
  proof cases
    case neg
    then obtain ja where ja: "ja \<le> 7"
        "EncodeInt64 a = (0x60 + (7 - of_nat ja)) # be_bytes a (Suc ja)"
        "- (2 ^ (8 * Suc ja)) \<le> sint a" "0 < ja \<longrightarrow> sint a < - (2 ^ (8 * ja))"
      by (rule EncodeInt64_negative)
    note ta = compact_tag_values(2)[OF ja(1)]
    consider (bneg) "sint b < - 8" | (bsmall) "\<not> sint b < - 8" "\<not> 7 < sint b" | (bpos) "7 < sint b"
      by linarith
    then show ?thesis
    proof cases
      case bneg
      then obtain jb where jb: "jb \<le> 7"
          "EncodeInt64 b = (0x60 + (7 - of_nat jb)) # be_bytes b (Suc jb)"
          "- (2 ^ (8 * Suc jb)) \<le> sint b" "0 < jb \<longrightarrow> sint b < - (2 ^ (8 * jb))"
        by (rule EncodeInt64_negative)
      note tb = compact_tag_values(2)[OF jb(1)]
      have "\<not> ja < jb"
      proof
        assume "ja < jb"
        then have "(2::int) ^ (8 * Suc ja) \<le> 2 ^ (8 * jb)" by (rule pow8_mono)
        moreover have "sint b < - (2 ^ (8 * jb))" using jb(4) \<open>ja < jb\<close> by simp
        ultimately show False using ja(3) assms by linarith
      qed
      then consider "jb < ja" | "ja = jb" by linarith
      then show ?thesis
      proof cases
        case 1
        then show ?thesis
          unfolding ja(2) jb(2) using ta tb by (intro differs_less_tag) simp
      next
        case 2
        have m: "8 * Suc jb \<le> 64" using jb(1) by simp
        have "uint a mod 2 ^ (8 * Suc jb) = sint a + 2 ^ (8 * Suc jb)"
          using neg ja(3) m unfolding 2 by (intro neg_payload_mod) simp_all
        moreover have "uint b mod 2 ^ (8 * Suc jb) = sint b + 2 ^ (8 * Suc jb)"
          using bneg jb(3) m by (intro neg_payload_mod) simp_all
        ultimately have "differs_less (be_bytes a (Suc jb)) (be_bytes b (Suc jb))"
          using assms by (intro be_bytes_less) simp
        then show ?thesis
          unfolding ja(2) jb(2) 2 by (rule differs_less_same_tag)
      qed
    next
      case bsmall
      then obtain tb where tb: "EncodeInt64 b = [tb]"
          "uint tb = (if 0 \<le> sint b then 224 + sint b else 112 + sint b)"
        using EncodeInt64_small by blast
      show ?thesis
        unfolding ja(2) tb(1) using ta tb(2) bsmall
        by (intro differs_less_tag) (simp split: if_splits)
    next
      case bpos
      then obtain jb where jb: "jb \<le> 7"
          "EncodeInt64 b = (0xE8 + of_nat jb) # be_bytes b (Suc jb)"
        by (rule EncodeInt64_positive)
      show ?thesis
        unfolding ja(2) jb(2) using ta compact_tag_values(1)[OF jb(1)]
        by (intro differs_less_tag) simp
    qed
  next
    case small
    then obtain ta where ta: "EncodeInt64 a = [ta]"
        "uint ta = (if 0 \<le> sint a then 224 + sint a else 112 + sint a)"
      using EncodeInt64_small by blast
    have nb: "\<not> sint b < - 8" using small(1) assms by linarith
    show ?thesis
    proof (cases "7 < sint b")
      case False
      with nb obtain tb where tb: "EncodeInt64 b = [tb]"
          "uint tb = (if 0 \<le> sint b then 224 + sint b else 112 + sint b)"
        using EncodeInt64_small by blast
      show ?thesis
        unfolding ta(1) tb(1) using ta(2) tb(2) assms small nb False
        by (intro differs_less_tag) (simp split: if_splits)
    next
      case True
      then obtain jb where jb: "jb \<le> 7"
          "EncodeInt64 b = (0xE8 + of_nat jb) # be_bytes b (Suc jb)"
        by (rule EncodeInt64_positive)
      show ?thesis
        unfolding ta(1) jb(2) using ta(2) small compact_tag_values(1)[OF jb(1)]
        by (intro differs_less_tag) (simp split: if_splits)
    qed
  next
    case pos
    then obtain ja where ja: "ja \<le> 7"
        "EncodeInt64 a = (0xE8 + of_nat ja) # be_bytes a (Suc ja)"
        "sint a < 2 ^ (8 * Suc ja)" "0 < ja \<longrightarrow> 2 ^ (8 * ja) \<le> sint a" "uint a = sint a"
      by (rule EncodeInt64_positive)
    have "7 < sint b" using pos assms by linarith
    then obtain jb where jb: "jb \<le> 7"
        "EncodeInt64 b = (0xE8 + of_nat jb) # be_bytes b (Suc jb)"
        "sint b < 2 ^ (8 * Suc jb)" "0 < jb \<longrightarrow> 2 ^ (8 * jb) \<le> sint b" "uint b = sint b"
      by (rule EncodeInt64_positive)
    have "\<not> jb < ja"
    proof
      assume "jb < ja"
      then have "(2::int) ^ (8 * Suc jb) \<le> 2 ^ (8 * ja)" by (rule pow8_mono)
      moreover have "2 ^ (8 * ja) \<le> sint a" using ja(4) \<open>jb < ja\<close> by simp
      ultimately show False using jb(3) assms by linarith
    qed
    then consider "ja < jb" | "ja = jb" by linarith
    then show ?thesis
    proof cases
      case 1
      then show ?thesis
        unfolding ja(2) jb(2)
        using compact_tag_values(1)[OF ja(1)] compact_tag_values(1)[OF jb(1)]
        by (intro differs_less_tag) simp
    next
      case 2
      have "uint a mod 2 ^ (8 * Suc jb) = sint a" "uint b mod 2 ^ (8 * Suc jb) = sint b"
        using ja(3,5) jb(3,5) pos \<open>7 < sint b\<close> 2 by (simp_all add: mod_pos_pos_trivial)
      then have "differs_less (be_bytes a (Suc jb)) (be_bytes b (Suc jb))"
        using assms by (intro be_bytes_less) simp
      then show ?thesis
        unfolding ja(2) jb(2) 2 by (rule differs_less_same_tag)
    qed
  qed
qed


lemma EncodeInt64_mono:
  "sint a < sint b \<Longrightarrow> bytes_Compare (EncodeInt64 a) (EncodeInt64 b) = - 1"
  by (intro differs_less_bytes_Compare EncodeInt64_differs_less)

lemma EncodeUint64_mono:
  "uint a < uint b \<Longrightarrow> bytes_Compare (EncodeUint64 a) (EncodeUint64 b) = - 1"
  by (intro differs_less_bytes_Compare EncodeUint64_differs_less)

section \<open>Order of byte strings of one length\<close>

text \<open>
  The tag and the length bytes depend on the length only, so encodings of two byte
  strings of the same length compare as the strings do.
\<close>

lemma bytes_Compare_same_prefix: "bytes_Compare (p @ a) (p @ b) = bytes_Compare a b"
  by (induction p) simp_all

lemma EncodeBytes_prefix:
  assumes "length a = length b" "int (length a) \<le> 65851 + 0xffffffff"
  shows "\<exists>p. EncodeBytes a = Return (p @ a) \<and> EncodeBytes b = Return (p @ b)"
proof -
  consider "int (length a) \<le> 60"
    | "\<not> int (length a) \<le> 60" "int (length a) \<le> 61 + 0xff"
    | "\<not> int (length a) \<le> 60" "\<not> int (length a) \<le> 61 + 0xff" "int (length a) \<le> 317 + 0xffff"
    | "\<not> int (length a) \<le> 60" "\<not> int (length a) \<le> 61 + 0xff"
      "\<not> int (length a) \<le> 317 + 0xffff"
    by linarith
  then show ?thesis
  proof cases
    case 1
    then show ?thesis
      unfolding EncodeBytes_def Let_def assms(1)[symmetric] by (simp only: if_True) blast
  next
    case 2
    then show ?thesis
      unfolding EncodeBytes_def Let_def assms(1)[symmetric] by (simp only: if_True if_False) blast
  next
    case 3
    then show ?thesis
      unfolding EncodeBytes_def Let_def assms(1)[symmetric] by (simp only: if_True if_False) blast
  next
    case 4
    then show ?thesis
      unfolding EncodeBytes_def Let_def assms(1)[symmetric] using assms(2)
      by (simp only: if_True if_False) blast
  qed
qed

lemma EncodeBytes_same_length_order:
  assumes "length a = length b" "EncodeBytes a = Return ea" "EncodeBytes b = Return eb"
  shows "bytes_Compare ea eb = bytes_Compare a b"
proof -
  have "int (length a) \<le> 65851 + 0xffffffff"
    using assms(2) by (simp add: EncodeBytes_def Let_def split: if_splits)
  then obtain p where "EncodeBytes a = Return (p @ a)" "EncodeBytes b = Return (p @ b)"
    using EncodeBytes_prefix[OF assms(1)] by blast
  with assms(2,3) have "ea = p @ a" "eb = p @ b"
    by simp_all
  then show ?thesis
    by (simp only: bytes_Compare_same_prefix)
qed

section \<open>Order of tuples without byte strings\<close>

text \<open>
  \<open>EncodeNils\<close> concatenates the encodings of the values. When two tuples agree on a
  prefix and then hold two booleans, two signed or two unsigned integers of which the
  first is smaller, the first tuple's buffer compares below the second's, whatever
  follows in either.
\<close>

lemma prepend_Nil [simp]: "prepend [] r = r"
  by (cases "([]::byte list, r)" rule: prepend.cases) simp_all

lemma prepend_prepend [simp]: "prepend a (prepend b r) = prepend (a @ b) r"
  by (cases "(b, r)" rule: prepend.cases) simp_all

lemma EncodeNils_uints_acc: "EncodeNils_uints t b = b @ EncodeNils_uints t []"
proof (induction t arbitrary: b)
  case Nil
  show ?case by simp
next
  case (Cons u t)
  show ?case
    using Cons[of "b @ EncodeUint64 u"] Cons[of "EncodeUint64 u"] by simp
qed

lemma EncodeNils_loop_step:
  "EncodeNils_loop nf (v # vs) b =
     (case EncodeNils_one nf v of
        Return (Inr e) \<Rightarrow> EncodeNils_loop nf vs (b @ e)
      | Return (Inl err) \<Rightarrow> Return (Inl err)
      | Panic s \<Rightarrow> Panic s)"
proof (cases v)
  case (VUint64s t)
  then show ?thesis
    using EncodeNils_uints_acc[of t b] by (simp add: EncodeNils_one_def)
next
  case (VBytes t)
  then show ?thesis by (cases "EncodeBytes t") (simp_all add: EncodeNils_one_def)
next
  case (VString t)
  then show ?thesis by (cases "EncodeBytes t") (simp_all add: EncodeNils_one_def)
qed (simp_all add: EncodeNils_one_def)

lemma EncodeNils_loop_acc:
  "EncodeNils_loop nf vs b = prepend b (EncodeNils_loop nf vs [])"
proof (induction vs arbitrary: b)
  case Nil
  show ?case by simp
next
  case (Cons v vs)
  show ?case
  proof (cases "EncodeNils_one nf v")
    case (Panic s)
    then show ?thesis
      by (simp add: EncodeNils_loop_step[of nf v vs] del: EncodeNils_loop.simps)
  next
    case (Return x)
    show ?thesis
    proof (cases x)
      case (Inl err)
      with Return show ?thesis
        by (simp add: EncodeNils_loop_step[of nf v vs] del: EncodeNils_loop.simps)
    next
      case (Inr e)
      with Return show ?thesis
        using Cons[of "b @ e"] Cons[of e]
        by (simp add: EncodeNils_loop_step[of nf v vs] del: EncodeNils_loop.simps)
    qed
  qed
qed

lemma EncodeNils_Cons:
  "EncodeNils_one nf v = Return (Inr e) \<Longrightarrow>
   EncodeNils nf (v # vs) = prepend e (EncodeNils nf vs)"
  unfolding EncodeNils_def
  using EncodeNils_loop_acc[of nf vs e]
  by (simp add: EncodeNils_loop_step[of nf v vs] del: EncodeNils_loop.simps)

lemma EncodeNils_append:
  "EncodeNils nf ps = Return (Inr P) \<Longrightarrow> EncodeNils nf (ps @ vs) = prepend P (EncodeNils nf vs)"
proof (induction ps arbitrary: P)
  case Nil
  then show ?case by (simp add: EncodeNils_def)
next
  case (Cons v ps)
  from Cons.prems obtain e where e: "EncodeNils_one nf v = Return (Inr e)"
    unfolding EncodeNils_def
    by (simp add: EncodeNils_loop_step[of nf v ps] del: EncodeNils_loop.simps
          split: exec.splits sum.splits)
  from Cons.prems have "prepend e (EncodeNils nf ps) = Return (Inr P)"
    by (simp add: EncodeNils_Cons[OF e])
  then obtain P' where P': "EncodeNils nf ps = Return (Inr P')" "P = e @ P'"
    by (cases "(e, EncodeNils nf ps)" rule: prepend.cases) auto
  show ?case
    using Cons.IH[OF P'(1)] by (simp add: EncodeNils_Cons[OF e] P'(2))
qed

lemma scalar_less_differs:
  assumes "scalar_less x y"
  shows "\<exists>e1 e2. EncodeNils_one nf x = Return (Inr e1) \<and> EncodeNils_one nf y = Return (Inr e2) \<and>
           differs_less e1 e2"
  using assms
  by (cases "(x, y)" rule: scalar_less.cases)
     (simp_all add: EncodeNils_one_def EncodeBool_def EncodeInt_def
        EncodeInt64_differs_less EncodeUint64_differs_less)

lemma Encode_first_difference:
  assumes "EncodeNils nf ps = Return (Inr P)" "scalar_less x y"
    and "EncodeNils nf xr = Return (Inr X)" "EncodeNils nf yr = Return (Inr Y)"
  shows "\<exists>ex ey. EncodeNils nf (ps @ x # xr) = Return (Inr ex) \<and>
           EncodeNils nf (ps @ y # yr) = Return (Inr ey) \<and> bytes_Compare ex ey = - 1"
proof -
  obtain e1 e2 where e: "EncodeNils_one nf x = Return (Inr e1)"
      "EncodeNils_one nf y = Return (Inr e2)" "differs_less e1 e2"
    using scalar_less_differs[OF assms(2)] by blast
  have "EncodeNils nf (ps @ x # xr) = Return (Inr (P @ e1 @ X))"
    by (simp add: EncodeNils_append[OF assms(1)] EncodeNils_Cons[OF e(1)] assms(3))
  moreover have "EncodeNils nf (ps @ y # yr) = Return (Inr (P @ e2 @ Y))"
    by (simp add: EncodeNils_append[OF assms(1)] EncodeNils_Cons[OF e(2)] assms(4))
  moreover have "bytes_Compare (P @ e1 @ X) (P @ e2 @ Y) = - 1"
    using e(3) by (simp add: bytes_Compare_same_prefix differs_less_append)
  ultimately show ?thesis by blast
qed

section \<open>The claims\<close>

subsection \<open>Order of the encodings\<close>

text \<open>
  Claim C1: encodings of signed integers, of unsigned integers and of byte strings
  (ordered by length, then content) compare under \<open>bytes.Compare\<close> as the values do.
  For byte strings this fails: \<open>EncodeBytes\<close> builds the tag of a short string as
  \<open>BB_BYTES | byte(l)\<close>, so a string of 16 bytes gets the tag \<open>0x10\<close> of the empty
  string, and its encoding compares below that of a string of one byte.
\<close>

theorem EncodeBytes_order_broken:
  "length [0::byte] < length (replicate 16 (0::byte)) \<and>
   EncodeBytes [0] = Return [0x11, 0] \<and>
   EncodeBytes (replicate 16 0) = Return (0x10 # replicate 16 0) \<and>
   bytes_Compare [0x11, 0] (0x10 # replicate 16 0) = 1"
  by (simp add: EncodeBytes_def)

subsection \<open>Decoding what was encoded\<close>

text \<open>
  Claim C2: \<open>Decode\<close> of the encoding of any supported scalar value returns that value
  and an empty remainder. It fails for a byte string of 16 bytes: its tag is \<open>0x10\<close>,
  and \<open>Decode\<close> returns the empty string and leaves all 16 bytes.
\<close>

theorem Decode_EncodeBytes_16:
  "exec_bind (EncodeBytes (replicate 16 0)) Decode = Return (Inr (VBytes [], replicate 16 0))"
  by (simp add: EncodeBytes_def Decode_eq Decode_switch_def Decode_bytes_direct_eq)

subsection \<open>Order of tuples\<close>

text \<open>
  Claim C3: the encodings of two tuples of equal length and matching types compare as
  the tuples do, the first differing position deciding. It fails for two tuples that
  first differ in a byte string of one byte against one of 16 bytes.
\<close>

theorem Encode_tuple_order_broken:
  "Encode [VInt64 3, VBytes [0]] = Return (Inr [0xE3, 0x11, 0]) \<and>
   Encode [VInt64 3, VBytes (replicate 16 0)] = Return (Inr (0xE3 # 0x10 # replicate 16 0)) \<and>
   bytes_Compare [0xE3, 0x11, 0] (0xE3 # 0x10 # replicate 16 0) = 1"
  by (simp add: Encode_def EncodeNils_def EncodeBytes_def EncodeInt64_def)

subsection \<open>Byte strings at the band boundaries\<close>

text \<open>
  Claim C4: \<open>EncodeBytes\<close> changes band exactly between the lengths 60 and 61 and
  between 316 and 317, and \<open>Decode\<close> recovers the string at each of the four lengths.
  The bands change there, but \<open>Decode\<close> recovers none of the four strings: at 60 the
  tag is \<open>0x3C\<close> and 44 bytes come back; at 61, 316 and 317 \<open>Decode\<close> adds 62 and 318
  where \<open>EncodeBytes\<close> subtracted 61 and 317, and reports a corrupted buffer.
\<close>

theorem Decode_EncodeBytes_boundaries:
  "EncodeBytes (replicate 60 0) = Return (0x3C # replicate 60 0) \<and>
   EncodeBytes (replicate 61 0) = Return (0x4D # 0 # replicate 61 0) \<and>
   EncodeBytes (replicate 316 0) = Return (0x4D # 0xFF # replicate 316 0) \<and>
   EncodeBytes (replicate 317 0) = Return (0x4E # 0 # 0 # replicate 317 0) \<and>
   exec_bind (EncodeBytes (replicate 60 0)) Decode =
     Return (Inr (VBytes (replicate 44 0), replicate 16 0)) \<and>
   exec_bind (EncodeBytes (replicate 61 0)) Decode = Return (Inl CorruptedBufferError) \<and>
   exec_bind (EncodeBytes (replicate 316 0)) Decode = Return (Inl CorruptedBufferError) \<and>
   exec_bind (EncodeBytes (replicate 317 0)) Decode = Return (Inl CorruptedBufferError)"
  by (simp add: EncodeBytes_def Decode_eq Decode_switch_def Decode_bytes_direct_eq
      Decode_bytes_len_1_eq Decode_bytes_len_2_eq)

subsection \<open>The band of four length bytes\<close>

text \<open>
  Claim C5: \<open>Decode\<close> fails on the encoding of a byte string long enough for the band
  of four length bytes. It does not fail: \<open>BB_BYTES_LEN_4\<close> is \<open>0x4E\<close>, the tag of
  the band of two length bytes, so \<open>Decode\<close> reads two of the four length bytes and
  returns a wrong, shorter string without an error.
\<close>

theorem Decode_len_4_band_succeeds:
  "EncodeBytes (replicate 65853 0) = Return (0x4E # 0 # 0 # 0 # 2 # replicate 65853 0) \<and>
   exec_bind (EncodeBytes (replicate 65853 0)) Decode =
     Return (Inr (VBytes (0 # 2 # replicate 316 0), replicate 65537 0))"
  by (simp add: EncodeBytes_def Decode_eq Decode_switch_def Decode_bytes_len_2_eq)

subsection \<open>Minimal payloads\<close>

text \<open>
  Claim C6: outside the small literals, the payload of \<open>EncodeInt64\<close> has the least
  number \<open>n\<close> of bytes, from 1 to 8, in which the integer fits under its sign's
  convention, and likewise for \<open>EncodeUint64\<close>. A positive integer fits in \<open>n\<close> bytes
  when it is below \<open>2 ^ (8 * n)\<close>; a negative one when it is at least \<open>- 2 ^ (8 * n)\<close>,
  all higher bytes being \<open>0xff\<close>. The tag carries \<open>n\<close>, and the payload is the \<open>n\<close>
  low bytes, the most significant first.
\<close>

theorem compact_payload_minimal:
  "(7 < sint i \<longrightarrow>
      (\<exists>n. 1 \<le> n \<and> n \<le> 8 \<and> EncodeInt64 i = (0xE7 + of_nat n) # be_bytes i n \<and>
           sint i < 2 ^ (8 * n) \<and> (\<forall>m. 1 \<le> m \<and> m < n \<longrightarrow> 2 ^ (8 * m) \<le> sint i))) \<and>
   (sint i < - 8 \<longrightarrow>
      (\<exists>n. 1 \<le> n \<and> n \<le> 8 \<and> EncodeInt64 i = (0x68 - of_nat n) # be_bytes i n \<and>
           - (2 ^ (8 * n)) \<le> sint i \<and> (\<forall>m. 1 \<le> m \<and> m < n \<longrightarrow> sint i < - (2 ^ (8 * m))))) \<and>
   (16 < uint u \<longrightarrow>
      (\<exists>n. 1 \<le> n \<and> n \<le> 8 \<and> EncodeUint64 u = (0x90 + of_nat n) # be_bytes u n \<and>
           uint u < 2 ^ (8 * n) \<and> (\<forall>m. 1 \<le> m \<and> m < n \<longrightarrow> 2 ^ (8 * m) \<le> uint u)))"
proof (intro conjI impI)
  assume pos: "7 < sint i"
  then have e: "EncodeInt64 i = compactInt64 i 0xE8"
    by (simp add: EncodeInt64_def)
  have u: "uint i = sint i"
    using pos by (intro uint_eq_sint_nonneg) simp
  obtain j where j: "j \<le> 7" "compactInt64 i 0xE8 = (0xE8 + of_nat j) # be_bytes i (Suc j)"
      "uint i < 2 ^ (8 * Suc j)" "0 < j \<longrightarrow> 2 ^ (8 * j) \<le> uint i"
    using compactInt64_positive[of "0xE8" i] by auto
  have min: "2 ^ (8 * m) \<le> sint i" if "1 \<le> m" "m < Suc j" for m
  proof -
    have "(2::int) ^ (8 * m) \<le> 2 ^ (8 * j)"
      using that by (intro power_increasing) simp_all
    moreover have "2 ^ (8 * j) \<le> uint i"
      using j(4) that by simp
    ultimately show ?thesis using u by linarith
  qed
  show "\<exists>n. 1 \<le> n \<and> n \<le> 8 \<and> EncodeInt64 i = (0xE7 + of_nat n) # be_bytes i n \<and>
           sint i < 2 ^ (8 * n) \<and> (\<forall>m. 1 \<le> m \<and> m < n \<longrightarrow> 2 ^ (8 * m) \<le> sint i)"
    using j(1,3) min by (intro exI[of _ "Suc j"]) (simp add: e j(2) flip: u)
next
  assume neg: "sint i < - 8"
  then have e: "EncodeInt64 i = compactInt64 i 0x60"
    by (simp add: EncodeInt64_def)
  have u: "uint (NOT i) = - 1 - sint i"
    using neg by (intro uint_NOT_neg) simp
  obtain j where j: "j \<le> 7" "compactInt64 i 0x60 = (0x60 + (7 - of_nat j)) # be_bytes i (Suc j)"
      "uint (NOT i) < 2 ^ (8 * Suc j)" "0 < j \<longrightarrow> 2 ^ (8 * j) \<le> uint (NOT i)"
    using compactInt64_negative[of "0x60" i] by auto
  have min: "sint i < - (2 ^ (8 * m))" if "1 \<le> m" "m < Suc j" for m
  proof -
    have "(2::int) ^ (8 * m) \<le> 2 ^ (8 * j)"
      using that by (intro power_increasing) simp_all
    moreover have "2 ^ (8 * j) \<le> uint (NOT i)"
      using j(4) that by simp
    ultimately show ?thesis using u by linarith
  qed
  have fit: "- (2 ^ (8 * Suc j)) \<le> sint i"
    using j(3) u by simp
  show "\<exists>n. 1 \<le> n \<and> n \<le> 8 \<and> EncodeInt64 i = (0x68 - of_nat n) # be_bytes i n \<and>
           - (2 ^ (8 * n)) \<le> sint i \<and> (\<forall>m. 1 \<le> m \<and> m < n \<longrightarrow> sint i < - (2 ^ (8 * m)))"
    using j(1) min fit by (intro exI[of _ "Suc j"]) (simp add: e j(2))
next
  assume big: "16 < uint u"
  then have e: "EncodeUint64 u = compactUint64 u"
    by (simp add: EncodeUint64_def)
  obtain j where j: "j \<le> 7" "compactUint64 u = (0x91 + of_nat j) # be_bytes u (Suc j)"
      "uint u < 2 ^ (8 * Suc j)" "0 < j \<longrightarrow> 2 ^ (8 * j) \<le> uint u"
    using compactUint64_eq[of u] by auto
  have min: "2 ^ (8 * m) \<le> uint u" if "1 \<le> m" "m < Suc j" for m
  proof -
    have "(2::int) ^ (8 * m) \<le> 2 ^ (8 * j)"
      using that by (intro power_increasing) simp_all
    moreover have "2 ^ (8 * j) \<le> uint u"
      using j(4) that by simp
    ultimately show ?thesis by linarith
  qed
  show "\<exists>n. 1 \<le> n \<and> n \<le> 8 \<and> EncodeUint64 u = (0x90 + of_nat n) # be_bytes u n \<and>
           uint u < 2 ^ (8 * n) \<and> (\<forall>m. 1 \<le> m \<and> m < n \<longrightarrow> 2 ^ (8 * m) \<le> uint u)"
    using j(1,3) min by (intro exI[of _ "Suc j"]) (simp add: e j(2))
qed

theorem compact_payload_minimal_witness:
  "7 < sint (1000::int64) \<and> EncodeInt64 1000 = [0xE9, 0x03, 0xE8] \<and>
   sint (- 1000::int64) < - 8 \<and> EncodeInt64 (- 1000) = [0x66, 0xFC, 0x18] \<and>
   16 < uint (1000::uint64) \<and> EncodeUint64 1000 = [0x92, 0x03, 0xE8]"
proof -
  have two: "n = 2"
    if "1 \<le> n" "(1000::int) < 2 ^ (8 * n)" "\<forall>m. 1 \<le> m \<and> m < n \<longrightarrow> (2::int) ^ (8 * m) \<le> 1000"
    for n :: nat
  proof -
    have "n \<noteq> 1" using that(2) by auto
    moreover have "\<not> 2 < n" using that(3)[rule_format, of 2] by auto
    ultimately show ?thesis using that(1) by simp
  qed
  have two': "n = 2"
    if "1 \<le> n" "- (2 ^ (8 * n)) \<le> (- 1000::int)"
       "\<forall>m. 1 \<le> m \<and> m < n \<longrightarrow> (- 1000::int) < - (2 ^ (8 * m))"
    for n :: nat
  proof -
    have "n \<noteq> 1" using that(2) by auto
    moreover have "\<not> 2 < n" using that(3)[rule_format, of 2] by auto
    ultimately show ?thesis using that(1) by simp
  qed
  have b: "be_bytes 1000 2 = [0x03, 0xE8]" "be_bytes (- 1000) 2 = [0xFC, 0x18]"
    by code_simp+
  have p: "7 < sint (1000::int64)" and q: "sint (- 1000::int64) < - 8"
    and r: "16 < uint (1000::uint64)"
    by simp_all
  obtain n where n: "1 \<le> n" "EncodeInt64 1000 = (0xE7 + of_nat n) # be_bytes 1000 n"
      "sint (1000::int64) < 2 ^ (8 * n)"
      "\<forall>m. 1 \<le> m \<and> m < n \<longrightarrow> 2 ^ (8 * m) \<le> sint (1000::int64)"
    using compact_payload_minimal[of 1000 1000] p by blast
  have "n = 2" using two[of n] n(1,3,4) by simp
  then have A: "EncodeInt64 1000 = [0xE9, 0x03, 0xE8]"
    using n(2) b by simp
  obtain n where n: "1 \<le> n" "EncodeInt64 (- 1000) = (0x68 - of_nat n) # be_bytes (- 1000) n"
      "- (2 ^ (8 * n)) \<le> sint (- 1000::int64)"
      "\<forall>m. 1 \<le> m \<and> m < n \<longrightarrow> sint (- 1000::int64) < - (2 ^ (8 * m))"
    using compact_payload_minimal[of "- 1000" 1000] q by blast
  have "n = 2" using two'[of n] n(1,3,4) by simp
  then have B: "EncodeInt64 (- 1000) = [0x66, 0xFC, 0x18]"
    using n(2) b by simp
  obtain n where n: "1 \<le> n" "EncodeUint64 1000 = (0x90 + of_nat n) # be_bytes 1000 n"
      "uint (1000::uint64) < 2 ^ (8 * n)"
      "\<forall>m. 1 \<le> m \<and> m < n \<longrightarrow> 2 ^ (8 * m) \<le> uint (1000::uint64)"
    using compact_payload_minimal[of 1000 1000] r by blast
  have "n = 2" using two[of n] n(1,3,4) by simp
  then have C: "EncodeUint64 1000 = [0x92, 0x03, 0xE8]"
    using n(2) b by simp
  from A B C p q r show ?thesis by blast
qed

subsection \<open>DecodeAll and the errors of Decode\<close>

text \<open>
  Claim C7: \<open>DecodeAll\<close> returns the values decoded so far, and no error, exactly when
  the single steps of \<open>Decode\<close> reach \<open>EmptyBufferError\<close>; when they reach any other
  error it returns that error and no list. One of the two always happens.
\<close>

theorem DecodeAll_ends_on_EmptyBuffer:
  "(DecodeAll s b = Return (Some res, None)) =
     (\<exists>vs b'. decodes b vs b' \<and> Decode b' = Return (Inl EmptyBufferError) \<and>
        res = map (DecodeAll_conv s) vs) \<and>
   (DecodeAll s b = Return (None, Some e)) =
     (\<exists>vs b'. decodes b vs b' \<and> Decode b' = Return (Inl e) \<and> e \<noteq> EmptyBufferError) \<and>
   ((\<exists>r. DecodeAll s b = Return (Some r, None)) \<or>
    (\<exists>e. DecodeAll s b = Return (None, Some e)))"
proof (intro conjI)
  show "(DecodeAll s b = Return (Some res, None)) =
     (\<exists>vs b'. decodes b vs b' \<and> Decode b' = Return (Inl EmptyBufferError) \<and>
        res = map (DecodeAll_conv s) vs)"
    unfolding DecodeAll_def DecodeAll_loop_char
    by (auto simp: DecodeAll_result_def split: if_splits)
  show "(DecodeAll s b = Return (None, Some e)) =
     (\<exists>vs b'. decodes b vs b' \<and> Decode b' = Return (Inl e) \<and> e \<noteq> EmptyBufferError)"
    unfolding DecodeAll_def DecodeAll_loop_char
    by (auto simp: DecodeAll_result_def split: if_splits)
  show "(\<exists>r. DecodeAll s b = Return (Some r, None)) \<or>
    (\<exists>e. DecodeAll s b = Return (None, Some e))"
    using DecodeAll_char[of b s] by (auto simp: DecodeAll_result_def split: if_splits)
qed

theorem DecodeAll_ends_on_EmptyBuffer_witness:
  "DecodeAll False [0x0F, 0xE3] = Return (Some [VBool True, VInt64 3], None) \<and>
   DecodeAll False [0x0F, 0x50, 0xE3] = Return (None, Some CorruptedBufferError)"
proof
  have d1: "Decode [0x0F, 0xE3] = Return (Inr (VBool True, [0xE3]))"
    and d2: "Decode [0xE3] = Return (Inr (VInt64 3, []))"
    and d3: "Decode [] = Return (Inl EmptyBufferError)"
    and d4: "Decode [0x0F, 0x50, 0xE3] = Return (Inr (VBool True, [0x50, 0xE3]))"
    and d5: "Decode [0x50, 0xE3] = Return (Inl CorruptedBufferError)"
    by (simp_all add: Decode_eq Decode_switch_def)
  have c1: "decodes [0x0F, 0xE3] [VBool True, VInt64 3] []"
    by (rule decodes_Cons[OF d1 decodes_Cons[OF d2 decodes_Nil]])
  have c2: "decodes [0x0F, 0x50, 0xE3] [VBool True] [0x50, 0xE3]"
    by (rule decodes_Cons[OF d4 decodes_Nil])
  have m: "[VBool True, VInt64 3] = map (DecodeAll_conv False) [VBool True, VInt64 3]"
    by (simp add: DecodeAll_conv_def)
  show "DecodeAll False [0x0F, 0xE3] = Return (Some [VBool True, VInt64 3], None)"
    by (rule DecodeAll_ends_on_EmptyBuffer[THEN conjunct1, THEN iffD2])
       (intro exI conjI, rule c1, rule d3, rule m)
  have ne: "CorruptedBufferError \<noteq> EmptyBufferError"
    by simp
  show "DecodeAll False [0x0F, 0x50, 0xE3] = Return (None, Some CorruptedBufferError)"
    by (rule DecodeAll_ends_on_EmptyBuffer[THEN conjunct2, THEN conjunct1, THEN iffD2])
       (intro exI conjI, rule c2, rule d5, rule ne)
qed

subsection \<open>Oversize byte strings\<close>

text \<open>
  Claim C8: \<open>EncodeBytes\<close> reports a byte string longer than its largest band to the
  caller as an error value, not by trapping. It panics instead.
\<close>

theorem EncodeBytes_oversize_counterexample:
  "EncodeBytes (replicate 4295033147 (0::byte)) = Panic ''slice too long''"
  by (simp add: EncodeBytes_def)

text \<open>
  Claim C8, as amended: on a byte string of more than \<open>65851 + 0xffffffff\<close> bytes
  \<open>EncodeBytes\<close> panics with \<open>slice too long\<close>, and \<open>EncodeNils\<close> lets the panic
  through.
\<close>

theorem EncodeBytes_oversize_panics:
  "65851 + 0xffffffff < int (length bb) \<Longrightarrow>
   EncodeBytes bb = Panic ''slice too long'' \<and>
   EncodeNils nilFirst [VBytes bb] = Panic ''slice too long'' \<and>
   EncodeNils nilFirst [VString bb] = Panic ''slice too long''"
  by (simp add: EncodeBytes_def EncodeNils_def)

theorem EncodeBytes_oversize_panics_witness:
  "65851 + 0xffffffff < int (length (replicate 4295033147 (0::byte))) \<and>
   EncodeBytes (replicate 4295033147 (0::byte)) = Panic ''slice too long'' \<and>
   EncodeNils True [VBytes (replicate 4295033147 0)] = Panic ''slice too long'' \<and>
   EncodeNils True [VString (replicate 4295033147 0)] = Panic ''slice too long''"
  using EncodeBytes_oversize_panics [of "replicate 4295033147 (0::byte)" True] by simp

subsection \<open>Reserved tags\<close>

text \<open>
  Claim C9: \<open>Decode\<close> never panics, and every tag in \<open>0x50\<close> to \<open>0x5F\<close>, \<open>0x70\<close> to
  \<open>0x73\<close>, \<open>0xF0\<close> to \<open>0xF7\<close> and the tag \<open>0x4F\<close> gives \<open>CorruptedBufferError\<close>. The
  tags \<open>0x70\<close> to \<open>0x73\<close> do not: \<open>BB_INT_MASK\<close> leaves bit 4 out, so they pass for
  the negative integer tags \<open>0x60\<close> to \<open>0x63\<close>.
\<close>

theorem Decode_double_tag_as_int:
  "Decode [0x70, 1, 2, 3, 4, 5, 6, 7, 8] = Return (Inr (VInt64 0x0102030405060708, [])) \<and>
   Decode [0x73, 1, 2, 3, 4, 5] = Return (Inr (VInt64 0xFFFFFF0102030405, []))"
  by code_simp

subsection \<open>The two nil sentinels\<close>

text \<open>
  Claim C10: \<open>Decode\<close> maps both sentinel tags, \<open>0x00\<close> and \<open>0xFF\<close>, to the same nil
  value, so decoding does not tell which ordering \<open>EncodeNil\<close> was given.
\<close>

theorem Decode_nil_sentinels_same:
  "Decode (BB_NIL_FIRST # r) = Return (Inr (VNil, r)) \<and>
   Decode (BB_NIL_LAST # r) = Return (Inr (VNil, r)) \<and>
   Decode (EncodeNil first) = Return (Inr (VNil, [])) \<and>
   Decode (EncodeNil True) = Decode (EncodeNil False)"
  by (simp add: Decode_eq Decode_switch_def EncodeNil_def)

end
